theory Spec2Isabelle
  imports Main
begin

section \<open>Strings and values of the generator scripts\<close>

text \<open>
  The three scripts (\<^verbatim>\<open>src/print/generate.js\<close> for events, the preference generator and
  the handle rewriter) work on JavaScript strings. A \<^typ>\<open>char\<close> stands for one code unit
  of such a string with a value below 256; every character the scripts test for or
  change is in that range. \<^verbatim>\<open>undefined\<close> is \<^term>\<open>None\<close>, a thrown exception is
  \<^term>\<open>Inl\<close> of an \<open>error\<close>.
\<close>

datatype error =
    TypeError
  | Error string

type_synonym 'a result = "error + 'a"

text \<open>\<^verbatim>\<open>xs[i]\<close>: reading past the end of an array gives \<^verbatim>\<open>undefined\<close>.\<close>

definition nth_opt :: "'a list \<Rightarrow> nat \<Rightarrow> 'a option" where
  "nth_opt xs i = (if i < length xs then Some (xs ! i) else None)"

text \<open>A template literal prints \<^verbatim>\<open>undefined\<close> as the word itself.\<close>

fun to_str :: "string option \<Rightarrow> string" where
  "to_str None = ''undefined''"
| "to_str (Some s) = s"

text \<open>
  \<^verbatim>\<open>str.split(sep)\<close> for a separator that is one character of a class: every
  separator character ends a piece, so the result has one piece more than there are
  separators, and the empty string gives one empty piece.
\<close>

fun split_by :: "(char \<Rightarrow> bool) \<Rightarrow> string \<Rightarrow> string list" where
  "split_by p [] = [[]]"
| "split_by p (c # cs) =
     (if p c then [] # split_by p cs
      else (case split_by p cs of
              [] \<Rightarrow> [[c]]
            | w # ws \<Rightarrow> (c # w) # ws))"

definition split_lines :: "string \<Rightarrow> string list" where
  "split_lines s = split_by (\<lambda>c. c = CHR 0x0A) s"

text \<open>\<^verbatim>\<open>str.startsWith(p)\<close> and \<^verbatim>\<open>str.includes(p)\<close>\<close>

fun startsWith :: "string \<Rightarrow> string \<Rightarrow> bool" where
  "startsWith [] s = True"
| "startsWith (p # ps) [] = False"
| "startsWith (p # ps) (c # cs) = (p = c \<and> startsWith ps cs)"

fun includes_str :: "string \<Rightarrow> string \<Rightarrow> bool" where
  "includes_str p [] = (p = [])"
| "includes_str p (c # cs) = (startsWith p (c # cs) \<or> includes_str p cs)"

text \<open>\<^verbatim>\<open>arr.join(sep)\<close>\<close>

fun join :: "string \<Rightarrow> string list \<Rightarrow> string" where
  "join sep [] = []"
| "join sep [x] = x"
| "join sep (x # y # ys) = x @ sep @ join sep (y # ys)"

text \<open>Character classes of the regular expressions (no \<^verbatim>\<open>u\<close> or \<^verbatim>\<open>i\<close> flag anywhere).\<close>

definition code :: "char \<Rightarrow> nat" where
  "code c = of_char c"

definition is_upper :: "char \<Rightarrow> bool" where
  "is_upper c = (65 \<le> code c \<and> code c \<le> 90)"

definition is_lower :: "char \<Rightarrow> bool" where
  "is_lower c = (97 \<le> code c \<and> code c \<le> 122)"

definition is_digit :: "char \<Rightarrow> bool" where
  "is_digit c = (48 \<le> code c \<and> code c \<le> 57)"

text \<open>\<^verbatim>\<open>\w\<close> is \<^verbatim>\<open>[A-Za-z0-9_]\<close>, \<^verbatim>\<open>\W\<close> its complement.\<close>

definition is_word :: "char \<Rightarrow> bool" where
  "is_word c = (is_upper c \<or> is_lower c \<or> is_digit c \<or> c = CHR ''_'')"

text \<open>
  \<^verbatim>\<open>\s\<close> below 256: tab, line feed, vertical tab, form feed, carriage return, space
  and the no-break space.
\<close>

definition is_space :: "char \<Rightarrow> bool" where
  "is_space c = ((9 \<le> code c \<and> code c \<le> 13) \<or> code c = 32 \<or> code c = 160)"

text \<open>\<^verbatim>\<open>.\<close> matches everything but a line terminator (below 256: LF and CR).\<close>

definition is_dot :: "char \<Rightarrow> bool" where
  "is_dot c = (code c \<noteq> 10 \<and> code c \<noteq> 13)"

text \<open>
  \<^verbatim>\<open>toUpperCase\<close> and \<^verbatim>\<open>toLowerCase\<close>. The scripts apply them to pieces of
  \<^verbatim>\<open>\w\<close> characters only, where they change the ASCII letters and nothing else.
\<close>

definition upper_char :: "char \<Rightarrow> char" where
  "upper_char c = (if is_lower c then char_of (code c - 32) else c)"

definition lower_char :: "char \<Rightarrow> char" where
  "lower_char c = (if is_upper c then char_of (code c + 32) else c)"

definition toUpperCase :: "string \<Rightarrow> string" where
  "toUpperCase s = map upper_char s"

definition toLowerCase :: "string \<Rightarrow> string" where
  "toLowerCase s = map lower_char s"

text \<open>\<^verbatim>\<open>arr.map(f)\<close> for an \<open>f\<close> that may throw: the first exception ends the map.\<close>

fun map_result :: "('a \<Rightarrow> 'b result) \<Rightarrow> 'a list \<Rightarrow> 'b list result" where
  "map_result f [] = Inr []"
| "map_result f (x # xs) =
     (case f x of
        Inl e \<Rightarrow> Inl e
      | Inr y \<Rightarrow> (case map_result f xs of Inl e \<Rightarrow> Inl e | Inr ys \<Rightarrow> Inr (y # ys)))"

section \<open>Event pipeline: \<^verbatim>\<open>src/print/generate.js\<close>\<close>

subsection \<open>\<^verbatim>\<open>readTextEvents\<close>\<close>

record event =
  name :: string
  signal :: "string option"
  fields_key :: "string option"
  format :: "string option"
  field_count_maybe :: "string option"

text \<open>
  \<^verbatim>\<open>for (let i = 0; i < lines.length; i += 6) yield { name: lines[i + 0], ... }\<close>.
  \<^verbatim>\<open>lines[i]\<close> is inside the array by the loop condition; the other four reads may be
  past its end.
\<close>

function readTextEvents_from :: "string list \<Rightarrow> nat \<Rightarrow> event list" where
  "readTextEvents_from lines i =
     (if i < length lines then
        \<lparr> name = lines ! (i + 0),
          signal = nth_opt lines (i + 1),
          fields_key = nth_opt lines (i + 2),
          format = nth_opt lines (i + 3),
          field_count_maybe = nth_opt lines (i + 4) \<rparr>
        # readTextEvents_from lines (i + 6)
      else [])"
  by pat_completeness auto
termination
  by (relation "measure (\<lambda>(lines, i). length lines - i)") auto

declare readTextEvents_from.simps [simp del]

definition readTextEvents :: "string \<Rightarrow> event list" where
  "readTextEvents textEvents = readTextEvents_from (split_lines textEvents) 0"

subsection \<open>\<^verbatim>\<open>nameToCamelCase\<close>\<close>

text \<open>
  \<^verbatim>\<open>w => { const first = w[0]; const rest = w.slice(1);
  return first.toUpperCase() + rest.toLowerCase(); }\<close>:
  for the empty piece \<^verbatim>\<open>w[0]\<close> is \<^verbatim>\<open>undefined\<close> and the method call throws.
\<close>

fun title_word :: "string \<Rightarrow> string result" where
  "title_word [] = Inl TypeError"
| "title_word (first # rest) = Inr (toUpperCase [first] @ toLowerCase rest)"

definition camel_of_words :: "string list \<Rightarrow> string result" where
  "camel_of_words words =
     (case map_result title_word words of
        Inl e \<Rightarrow> Inl e
      | Inr ws \<Rightarrow> Inr (join [] ws))"

definition nameToCamelCase :: "string \<Rightarrow> string result" where
  "nameToCamelCase spacedName = camel_of_words (split_by (\<lambda>c. \<not> is_word c) spacedName)"

section \<open>Regular expressions\<close>

text \<open>
  The scripts' regular expressions are sequences of literals, quantified character
  classes, capture groups and \<^verbatim>\<open>$\<close>. They are matched as JavaScript does it: the
  leftmost start wins, a greedy quantifier tries the longest run first and a lazy one
  the shortest, and a failure further right makes it try the next length.
\<close>

datatype cclass =
    CSpace
  | CWord
  | CDot
  | COneOf string
  | CNoneOf string
  | CUnion cclass cclass

fun in_class :: "cclass \<Rightarrow> char \<Rightarrow> bool" where
  "in_class CSpace c = is_space c"
| "in_class CWord c = is_word c"
| "in_class CDot c = is_dot c"
| "in_class (COneOf cs) c = (c \<in> set cs)"
| "in_class (CNoneOf cs) c = (c \<notin> set cs)"
| "in_class (CUnion a b) c = (in_class a c \<or> in_class b c)"

datatype greed = Greedy | Lazy

datatype atom =
    Lit string
  | Rep cclass nat "nat option" greed
  | GOpen
  | GClose
  | Eoi

type_synonym regex = "atom list"

fun first_some :: "('a \<Rightarrow> 'b option) \<Rightarrow> 'a list \<Rightarrow> 'b option" where
  "first_some f [] = None"
| "first_some f (x # xs) = (case f x of Some y \<Rightarrow> Some y | None \<Rightarrow> first_some f xs)"

text \<open>
  The repetition counts a quantifier tries, in order: between \<open>lo\<close> and the length of
  the run of class characters at the front of \<open>s\<close> (at most \<open>hi\<close>).
\<close>

definition counts :: "cclass \<Rightarrow> nat \<Rightarrow> nat option \<Rightarrow> greed \<Rightarrow> string \<Rightarrow> nat list" where
  "counts cl lo hi g s =
     (let run = length (takeWhile (in_class cl) s);
          top = (case hi of None \<Rightarrow> run | Some h \<Rightarrow> min h run)
      in case g of Greedy \<Rightarrow> rev [lo..<Suc top] | Lazy \<Rightarrow> [lo..<Suc top])"

text \<open>
  \<open>rmatch re s opens caps\<close> matches \<open>re\<close> at the front of \<open>s\<close>; \<open>opens\<close> holds the input
  as it was where each open group started, \<open>caps\<close> the text of the groups closed so far.
  The result is the captures and the input left after the match.
\<close>

fun rmatch :: "regex \<Rightarrow> string \<Rightarrow> string list \<Rightarrow> string list \<Rightarrow> (string list \<times> string) option" where
  "rmatch [] s opens caps = Some (caps, s)"
| "rmatch (Lit l # re) s opens caps =
     (if startsWith l s then rmatch re (drop (length l) s) opens caps else None)"
| "rmatch (Rep cl lo hi g # re) s opens caps =
     first_some (\<lambda>k. rmatch re (drop k s) opens caps) (counts cl lo hi g s)"
| "rmatch (GOpen # re) s opens caps = rmatch re s (s # opens) caps"
| "rmatch (GClose # re) s opens caps =
     (case opens of
        [] \<Rightarrow> None
      | s0 # ops \<Rightarrow> rmatch re s ops (caps @ [take (length s0 - length s) s0]))"
| "rmatch (Eoi # re) s opens caps = (if s = [] then rmatch re s opens caps else None)"

text \<open>
  The result of \<^verbatim>\<open>regex.exec(str)\<close>: the text before the match, the match
  (\<^verbatim>\<open>m[0]\<close>), the groups (\<^verbatim>\<open>m[1]\<close>, \<^verbatim>\<open>m[2]\<close>, ...) and the text after the match.
\<close>

record rx_match =
  before :: string
  whole :: string
  groups :: "string list"
  after :: string

fun rsearch :: "regex \<Rightarrow> string \<Rightarrow> string \<Rightarrow> rx_match option" where
  "rsearch re pre [] =
     (case rmatch re [] [] [] of
        Some (caps, rest) \<Rightarrow> Some \<lparr> before = pre, whole = [], groups = caps, after = rest \<rparr>
      | None \<Rightarrow> None)"
| "rsearch re pre (c # cs) =
     (case rmatch re (c # cs) [] [] of
        Some (caps, rest) \<Rightarrow>
          Some \<lparr> before = pre, whole = take (length (c # cs) - length rest) (c # cs),
                 groups = caps, after = rest \<rparr>
      | None \<Rightarrow> rsearch re (pre @ [c]) cs)"

definition exec :: "regex \<Rightarrow> string \<Rightarrow> rx_match option" where
  "exec re s = rsearch re [] s"

lemma first_some_SomeD: "first_some f xs = Some y \<Longrightarrow> \<exists>x \<in> set xs. f x = Some y"
  by (induction xs) (auto split: option.splits)

lemma rmatch_rest_length:
  "rmatch re s opens caps = Some (caps', rest) \<Longrightarrow> length rest \<le> length s"
proof (induction re s opens caps rule: rmatch.induct)
  case (3 cl lo hi g re s opens caps)
  from "3.prems" obtain k where k: "k \<in> set (counts cl lo hi g s)"
    and m: "rmatch re (drop k s) opens caps = Some (caps', rest)"
    by (auto dest: first_some_SomeD)
  from "3.IH" [OF m] show ?case by simp
qed (auto split: if_splits list.splits)

lemma rsearch_after_length:
  "rsearch re pre s = Some m \<Longrightarrow> length (after m) \<le> length s"
  by (induction re pre s rule: rsearch.induct)
     (auto split: option.splits dest: rmatch_rest_length)

lemma rsearch_whole_after_length:
  "rsearch re pre s = Some m \<Longrightarrow> whole m \<noteq> [] \<Longrightarrow> length (after m) < length s"
proof (induction re pre s rule: rsearch.induct)
  case (1 re pre)
  then show ?case by (auto split: option.splits)
next
  case (2 re pre c cs)
  show ?case
  proof (cases "rmatch re (c # cs) [] []")
    case None
    with 2 show ?thesis by fastforce
  next
    case (Some r)
    obtain caps rest where r: "r = (caps, rest)" by (cases r)
    from Some r "2.prems" have "length (c # cs) - length rest \<noteq> 0" and "after m = rest"
      by auto
    then show ?thesis by simp
  qed
qed

text \<open>
  \<^verbatim>\<open>str.replace(regex, callback)\<close> with the \<^verbatim>\<open>g\<close> flag: every match, from left to
  right, is replaced by what the callback returns for it; after an empty match the
  search moves on by one character. \<^term>\<open>None\<close>: the callback did not return.
\<close>

function replace_g :: "regex \<Rightarrow> (rx_match \<Rightarrow> string option) \<Rightarrow> string \<Rightarrow> string option" where
  "replace_g re f s =
     (case exec re s of
        None \<Rightarrow> Some s
      | Some m \<Rightarrow>
          (case f m of
             None \<Rightarrow> None
           | Some r \<Rightarrow>
               (if whole m = [] then
                  (case after m of
                     [] \<Rightarrow> Some (before m @ r)
                   | c # cs \<Rightarrow> map_option (\<lambda>t. before m @ r @ c # t) (replace_g re f cs))
                else map_option (\<lambda>t. before m @ r @ t) (replace_g re f (after m)))))"
  by pat_completeness auto
termination
proof (relation "measure (\<lambda>(re, f, s). length s)", goal_cases)
  case 1
  show ?case by simp
next
  case (2 re f s m r c cs)
  from rsearch_after_length [of re "[]" s m] 2 show ?case by (simp add: exec_def)
next
  case (3 re f s m r)
  from rsearch_whole_after_length [of re "[]" s m] 3 show ?case by (simp add: exec_def)
qed

declare replace_g.simps [simp del]

text \<open>
  \<^verbatim>\<open>allMatches(str, regex)\<close> is \<^verbatim>\<open>repeatWhile(() => regex.exec(str))\<close> on a \<^verbatim>\<open>g\<close>
  regex: each call searches from the end of the match before. \<^verbatim>\<open>exec\<close> does not move
  on after an empty match, so there the loop never ends: \<^term>\<open>None\<close>.
\<close>

function allMatches :: "string \<Rightarrow> regex \<Rightarrow> rx_match list option" where
  "allMatches str re =
     (case exec re str of
        None \<Rightarrow> Some []
      | Some x \<Rightarrow>
          (if whole x = [] then None
           else map_option (\<lambda>arr. x # arr) (allMatches (after x) re)))"
  by pat_completeness auto
termination
proof (relation "measure (\<lambda>(str, re). length str)", goal_cases)
  case 1
  show ?case by simp
next
  case (2 str re x)
  from rsearch_whole_after_length [of re "[]" str x] 2 show ?case by (simp add: exec_def)
qed

declare allMatches.simps [simp del]

text \<open>\<^verbatim>\<open>`${i}`\<close> for an array index: its decimal digits.\<close>

function decimal :: "nat \<Rightarrow> string" where
  "decimal n =
     (if n < 10 then [char_of (48 + n)]
      else decimal (n div 10) @ [char_of (48 + n mod 10)])"
  by pat_completeness auto
termination
  by (relation "measure id") auto

declare decimal.simps [simp del]

text \<open>
  A generator that has been run: what it yielded, and the exception that ended it, if
  one did.
\<close>

type_synonym 'a gen = "'a list \<times> error option"

fun yield_each :: "('a \<Rightarrow> 'b result) \<Rightarrow> 'a list \<Rightarrow> 'b gen" where
  "yield_each f [] = ([], None)"
| "yield_each f (x # xs) =
     (case f x of
        Inl e \<Rightarrow> ([], Some e)
      | Inr y \<Rightarrow> (case yield_each f xs of (ys, r) \<Rightarrow> (y # ys, r)))"

text \<open>
  \<^verbatim>\<open>for (const x of source()) yield f(x)\<close>: the items of the source are taken one at a
  time, so an exception of \<open>f\<close> comes before the later items are read, and the source's
  own exception after all its items.
\<close>

definition for_of :: "'a gen \<Rightarrow> ('a \<Rightarrow> 'b result) \<Rightarrow> 'b gen" where
  "for_of src f =
     (case yield_each f (fst src) of
        (ys, Some e) \<Rightarrow> (ys, Some e)
      | (ys, None) \<Rightarrow> (ys, snd src))"

subsection \<open>\<^verbatim>\<open>readDescriptions\<close>\<close>

text \<open>\<^verbatim>\<open>/const\s+(\w+)\[]/\<close>\<close>

definition re_const :: regex where
  "re_const =
     [Lit ''const'', Rep CSpace 1 None Greedy, GOpen, Rep CWord 1 None Greedy, GClose,
      Lit ''[]'']"

text \<open>\<^verbatim>\<open>/N_\("(.+)"\)/\<close>\<close>

definition re_wrapped :: regex where
  "re_wrapped = [Lit ''N_(\"'', GOpen, Rep CDot 1 None Greedy, GClose, Lit ''\")'']"

text \<open>\<^verbatim>\<open>/\s"(.+)"\s*$/\<close>\<close>

definition re_bare :: regex where
  "re_bare =
     [Rep CSpace 1 (Some 1) Greedy, Lit ''\"'', GOpen, Rep CDot 1 None Greedy, GClose,
      Lit ''\"'', Rep CSpace 0 None Greedy, Eoi]"

record descriptor =
  key :: string
  fields_list :: "string list"

text \<open>
  \<^verbatim>\<open>const [, field] = A.exec(line) || B.exec(line)\<close>: the second pattern is tried when
  the first finds nothing; when neither does, destructuring \<^verbatim>\<open>null\<close> throws.
\<close>

definition field_of :: "string \<Rightarrow> string result" where
  "field_of line =
     (case exec re_wrapped line of
        Some m \<Rightarrow> Inr (groups m ! 0)
      | None \<Rightarrow>
          (case exec re_bare line of
             Some m \<Rightarrow> Inr (groups m ! 0)
           | None \<Rightarrow> Inl TypeError))"

text \<open>
  The inner loop \<^verbatim>\<open>while (!lines[i].startsWith('}'))\<close>, on the lines from \<open>i\<close> on; it
  returns the fields and the lines after the closing one. Past the last line
  \<^verbatim>\<open>lines[i]\<close> is \<^verbatim>\<open>undefined\<close> and the method call throws.
\<close>

fun read_fields :: "string list \<Rightarrow> (string list \<times> string list) result" where
  "read_fields [] = Inl TypeError"
| "read_fields (line # rest) =
     (if startsWith ''}'' line then Inr ([], rest)
      else (case field_of line of
              Inl e \<Rightarrow> Inl e
            | Inr field \<Rightarrow>
                (case read_fields rest of
                   Inl e \<Rightarrow> Inl e
                 | Inr (fs, rest') \<Rightarrow> Inr (field # fs, rest'))))"

lemma read_fields_length:
  "read_fields ls = Inr (fs, rest) \<Longrightarrow> length rest < length ls"
  by (induction ls arbitrary: fs rest) (auto split: if_splits sum.splits prod.splits)

text \<open>The outer loop, on the lines from \<open>i\<close> on.\<close>

function readDescriptions_lines :: "string list \<Rightarrow> descriptor gen" where
  "readDescriptions_lines [] = ([], None)"
| "readDescriptions_lines (line # rest) =
     (case exec re_const line of
        None \<Rightarrow> ([], Some TypeError)
      | Some m \<Rightarrow>
          (case read_fields rest of
             Inl e \<Rightarrow> ([], Some e)
           | Inr (fs, rest') \<Rightarrow>
               (case readDescriptions_lines (dropWhile (\<lambda>l. l = []) rest') of
                  (ds, r) \<Rightarrow> (\<lparr> key = groups m ! 0, fields_list = fs \<rparr> # ds, r))))"
  by pat_completeness auto
termination
proof (relation "measure length", goal_cases)
  case 1
  show ?case by simp
next
  case (2 line rest m x fs rest')
  have "length (dropWhile (\<lambda>l. l = []) rest') \<le> length rest'"
    by (rule length_dropWhile_le)
  with read_fields_length [of rest fs rest'] 2 show ?case by simp
qed

definition commentLines :: nat where
  "commentLines = 18"

definition readDescriptions :: "string \<Rightarrow> descriptor gen" where
  "readDescriptions descriptions =
     readDescriptions_lines (drop commentLines (split_lines descriptions))"

subsection \<open>\<^verbatim>\<open>generateRustLines\<close>\<close>

text \<open>
  \<^verbatim>\<open>field_descriptions\<close>: an object without prototype, holding the reserved key first
  and then every descriptor read, a later one replacing an earlier one of its key.
\<close>

definition field_descriptions :: "descriptor list \<Rightarrow> (string \<rightharpoonup> string list)" where
  "field_descriptions ds =
     foldl (\<lambda>m d. m(key d \<mapsto> fields_list d)) [''pevt_generic_none_help'' \<mapsto> []] ds"

text \<open>\<^verbatim>\<open>fields.map((field, i) => `${i}: "${field}"`).join(', ')\<close>\<close>

definition index_pairs :: "string list \<Rightarrow> string list" where
  "index_pairs fs = map (\<lambda>(i, field). decimal i @ '': \"'' @ field @ ''\"'') (enumerate 0 fs)"

text \<open>
  The template literal of one event. Its parts are evaluated from left to right:
  \<^verbatim>\<open>nameToCamelCase(name)\<close> first, the lookup last; \<^verbatim>\<open>.map\<close> on a key that is not in
  the object throws.
\<close>

definition event_line :: "(string \<rightharpoonup> string list) \<Rightarrow> event \<Rightarrow> string result" where
  "event_line fd ev =
     (case nameToCamelCase (name ev) of
        Inl e \<Rightarrow> Inl e
      | Inr ident \<Rightarrow>
          (case fd (to_str (fields_key ev)) of
             None \<Rightarrow> Inl TypeError
           | Some fs \<Rightarrow>
               Inr (''print_event!('' @ ident @ '', \"'' @ name ev @ ''\", \"''
                    @ to_str (format ev) @ ''\", '' @ join '', '' (index_pairs fs) @ '');'')))"

text \<open>
  The descriptors are all read before the first event; an exception there ends the
  generator before it yields a line.
\<close>

definition generateRustLines :: "string \<Rightarrow> string \<Rightarrow> string gen" where
  "generateRustLines descriptions textEvents =
     (case readDescriptions descriptions of
        (ds, Some e) \<Rightarrow> ([], Some e)
      | (ds, None) \<Rightarrow>
          for_of (readTextEvents textEvents, None) (event_line (field_descriptions ds)))"

section \<open>Preference pipeline\<close>

text \<open>\<^verbatim>\<open>/^\s/\<close>: the match is pinned to the start of the line.\<close>

definition re_indent :: regex where
  "re_indent = [Rep CSpace 1 (Some 1) Greedy]"

definition test_at_start :: "regex \<Rightarrow> string \<Rightarrow> bool" where
  "test_at_start re s = (rmatch re s [] [] \<noteq> None)"

text \<open>\<^verbatim>\<open>/{"(\w+)",[^,]+, (\w+)/\<close>\<close>

definition re_pref :: regex where
  "re_pref =
     [Lit ''{\"'', GOpen, Rep CWord 1 None Greedy, GClose, Lit ''\",'',
      Rep (CNoneOf '','') 1 None Greedy, Lit '', '', GOpen, Rep CWord 1 None Greedy, GClose]"

record pref =
  pref_name :: string
  pref_type :: string

fun readPrefs_lines :: "string list \<Rightarrow> pref gen" where
  "readPrefs_lines [] = ([], None)"
| "readPrefs_lines (line # rest) =
     (if line = [] then readPrefs_lines rest
      else if \<not> test_at_start re_indent line then readPrefs_lines rest
      else if includes_str ''{0, 0, 0}'' line then readPrefs_lines rest
      else (case exec re_pref line of
              None \<Rightarrow> ([], Some TypeError)
            | Some m \<Rightarrow>
                (case readPrefs_lines rest of
                   (ps, r) \<Rightarrow> (\<lparr> pref_name = groups m ! 0, pref_type = groups m ! 1 \<rparr> # ps, r))))"

definition prefixLines :: nat where
  "prefixLines = 2"

definition readPrefs :: "string \<Rightarrow> pref gen" where
  "readPrefs descriptions = readPrefs_lines (drop prefixLines (split_lines descriptions))"

text \<open>The preference script's own \<^verbatim>\<open>nameToCamelCase\<close> splits on \<^verbatim>\<open>_\<close>.\<close>

definition pref_nameToCamelCase :: "string \<Rightarrow> string result" where
  "pref_nameToCamelCase spacedName = camel_of_words (split_by (\<lambda>c. c = CHR ''_'') spacedName)"

definition typeToRust :: "string \<Rightarrow> string result" where
  "typeToRust t =
     (if t = ''TYPE_STR'' then Inr ''String''
      else if t = ''TYPE_INT'' then Inr ''i32''
      else if t = ''TYPE_BOOL'' then Inr ''bool''
      else Inl (Error (''Unsupported type: '' @ t)))"

definition pref_line :: "pref \<Rightarrow> string result" where
  "pref_line p =
     (case pref_nameToCamelCase (pref_name p) of
        Inl e \<Rightarrow> Inl e
      | Inr ident \<Rightarrow>
          (case typeToRust (pref_type p) of
             Inl e \<Rightarrow> Inl e
           | Inr ty \<Rightarrow>
               Inr (''pref!('' @ ident @ '', \"'' @ pref_name p @ ''\", '' @ ty @ '');'')))"

definition pref_generateRustLines :: "string \<Rightarrow> string gen" where
  "pref_generateRustLines descriptions = for_of (readPrefs descriptions) pref_line"

section \<open>Handle rewriter\<close>

text \<open>\<^verbatim>\<open>/unsafe fn (\w+)\((?:.|\n)+?\{/g\<close>\<close>

definition re_fn :: regex where
  "re_fn =
     [Lit ''unsafe fn '', GOpen, Rep CWord 1 None Greedy, GClose, Lit ''('',
      Rep (CUnion CDot (COneOf ''\<newline>'')) 1 None Lazy, Lit ''{'']"

text \<open>\<^verbatim>\<open>/(\n\s+?)\w+?:/g\<close>\<close>

definition re_depth :: regex where
  "re_depth =
     [GOpen, Lit ''\<newline>'', Rep CSpace 1 None Lazy, GClose, Rep CWord 1 None Lazy, Lit '':'']"

text \<open>
  \<^verbatim>\<open>new RegExp(`${firstArgDepth}(\\w+):`, 'g')\<close>. The depth is empty or a line feed and
  white space, which a pattern takes literally.
\<close>

definition argRegex :: "string \<Rightarrow> regex" where
  "argRegex firstArgDepth =
     [Lit firstArgDepth, GOpen, Rep CWord 1 None Greedy, GClose, Lit '':'']"

text \<open>\<^verbatim>\<open>/ph: \*mut hexchat_plugin,\n?/g\<close>\<close>

definition re_ph :: regex where
  "re_ph = [Lit ''ph: *mut hexchat_plugin,'', Rep (COneOf ''\<newline>'') 0 (Some 1) Greedy]"

definition firstArgDepth :: "string \<Rightarrow> string" where
  "firstArgDepth fullMatch =
     (case exec re_depth fullMatch of
        Some m \<Rightarrow> groups m ! 0
      | None \<Rightarrow> [])"

text \<open>\<^verbatim>\<open>allMatches(fullMatch, argRegex).map(([, name]) => name)\<close>, before \<^verbatim>\<open>slice(1)\<close>.\<close>

definition param_names :: "string \<Rightarrow> string list option" where
  "param_names fullMatch =
     map_option (map (\<lambda>m. groups m ! 0))
       (allMatches fullMatch (argRegex (firstArgDepth fullMatch)))"

definition forwarding_body :: "string \<Rightarrow> string list \<Rightarrow> string" where
  "forwarding_body fname args =
     ''// Safety: forwarded to caller\<newline>'' @ [CHR 0x09, CHR 0x09, CHR 0x09]
     @ ''unsafe { ((*self.handle.as_ptr()).'' @ fname @ '')(self.handle.as_ptr(), ''
     @ join '','' args @ '') }\<newline>'' @ [CHR 0x09, CHR 0x09]"

text \<open>The callback of the outer \<^verbatim>\<open>replace\<close>, for one matched block.\<close>

definition rewrite_block :: "rx_match \<Rightarrow> string option" where
  "rewrite_block m =
     (let fullMatch = whole m; fname = groups m ! 0 in
      case param_names fullMatch of
        None \<Rightarrow> None
      | Some names \<Rightarrow>
          (let args = drop 1 names in
           case replace_g re_ph (\<lambda>_. Some []) fullMatch of
             None \<Rightarrow> None
           | Some matchWithoutPhArg \<Rightarrow> Some (matchWithoutPhArg @ forwarding_body fname args)))"

definition rewrite :: "string \<Rightarrow> string option" where
  "rewrite input = replace_g re_fn rewrite_block input"

section \<open>The identifier form, as the specification words it\<close>

text \<open>
  The specification's reading of the event name: its words are the maximal runs of word
  characters, each word is written with its first character in upper case and the rest
  in lower case, and the words are put together with nothing between them.
\<close>

function word_tokens :: "string \<Rightarrow> string list" where
  "word_tokens [] = []"
| "word_tokens (c # cs) =
     (if is_word c then (c # takeWhile is_word cs) # word_tokens (dropWhile is_word cs)
      else word_tokens cs)"
  by pat_completeness auto
termination
  by (relation "measure length") (auto simp: less_Suc_eq_le length_dropWhile_le)

text \<open>
  Upper and lower case are read off the alphabet itself: the letter at a place of the
  lower-case alphabet has the letter at the same place of the upper-case alphabet as
  its upper case, and the other way round; every other character stays as it is.
\<close>

definition lower_letters :: string where
  "lower_letters = ''abcdefghijklmnopqrstuvwxyz''"

definition upper_letters :: string where
  "upper_letters = ''ABCDEFGHIJKLMNOPQRSTUVWXYZ''"

definition to_upper_letter :: "char \<Rightarrow> char" where
  "to_upper_letter c =
     (case map_of (zip lower_letters upper_letters) c of Some u \<Rightarrow> u | None \<Rightarrow> c)"

definition to_lower_letter :: "char \<Rightarrow> char" where
  "to_lower_letter c =
     (case map_of (zip upper_letters lower_letters) c of Some l \<Rightarrow> l | None \<Rightarrow> c)"

definition title_case :: "string \<Rightarrow> string" where
  "title_case w =
     (case w of [] \<Rightarrow> [] | c # cs \<Rightarrow> to_upper_letter c # map to_lower_letter cs)"

definition spec_identifier :: "string \<Rightarrow> string" where
  "spec_identifier n = concat (map title_case (word_tokens n))"


section \<open>Layouts of a block of the handle rewriter\<close>



section \<open>Properties of the event reader\<close>

lemma stride_count: "0 < n \<Longrightarrow> Suc ((n - 6 + 5) div 6) = (n + 5) div (6::nat)"
proof (cases "6 \<le> n")
  case True
  then obtain m where "n = m + 6" by (metis le_add_diff_inverse2)
  then show ?thesis by simp
next
  case False
  assume "0 < n"
  with False have "n = 1 \<or> n = 2 \<or> n = 3 \<or> n = 4 \<or> n = 5" by linarith
  then show ?thesis by auto
qed

lemma stride_index: "k < (n + 5) div (6::nat) \<Longrightarrow> 6 * k < n"
proof -
  assume "k < (n + 5) div 6"
  then have "Suc k \<le> (n + 5) div 6" by simp
  then have "Suc k * 6 \<le> n + 5" by (simp only: less_eq_div_iff_mult_less_eq)
  then show ?thesis by simp
qed

lemma readTextEvents_from_length:
  "length (readTextEvents_from lines i) = (length lines - i + 5) div 6"
proof (induction lines i rule: readTextEvents_from.induct)
  case (1 lines i)
  show ?case
  proof (cases "i < length lines")
    case True
    with 1 have "length (readTextEvents_from lines i) = Suc ((length lines - i - 6 + 5) div 6)"
      by (subst readTextEvents_from.simps) simp
    also from True have "\<dots> = (length lines - i + 5) div 6"
      by (intro stride_count) simp
    finally show ?thesis .
  next
    case False
    then show ?thesis by (subst readTextEvents_from.simps) simp
  qed
qed

lemma readTextEvents_from_nth:
  "k < (length lines - i + 5) div 6 \<Longrightarrow>
   readTextEvents_from lines i ! k =
     \<lparr> name = lines ! (i + 6 * k),
       signal = nth_opt lines (i + 6 * k + 1),
       fields_key = nth_opt lines (i + 6 * k + 2),
       format = nth_opt lines (i + 6 * k + 3),
       field_count_maybe = nth_opt lines (i + 6 * k + 4) \<rparr>"
proof (induction lines i arbitrary: k rule: readTextEvents_from.induct)
  case (1 lines i)
  from stride_index [OF "1.prems"] have lt: "i < length lines" by simp
  have unfold: "readTextEvents_from lines i =
        \<lparr> name = lines ! (i + 0),
          signal = nth_opt lines (i + 1),
          fields_key = nth_opt lines (i + 2),
          format = nth_opt lines (i + 3),
          field_count_maybe = nth_opt lines (i + 4) \<rparr>
        # readTextEvents_from lines (i + 6)"
    using lt by (subst readTextEvents_from.simps) simp
  show ?case
  proof (cases k)
    case 0
    then show ?thesis by (simp add: unfold)
  next
    case (Suc j)
    from lt have "Suc ((length lines - i - 6 + 5) div 6) = (length lines - i + 5) div 6"
      by (intro stride_count) simp
    with "1.prems" Suc have "j < (length lines - (i + 6) + 5) div 6" by simp
    from "1.IH" [OF lt this] have "readTextEvents_from lines (i + 6) ! j =
     \<lparr> name = lines ! (i + 6 + 6 * j),
       signal = nth_opt lines (i + 6 + 6 * j + 1),
       fields_key = nth_opt lines (i + 6 + 6 * j + 2),
       format = nth_opt lines (i + 6  + 6 * j + 3),
       field_count_maybe = nth_opt lines (i + 6 + 6 * j + 4) \<rparr>" .
    moreover have "i + 6 + 6 * j = i + 6 * k" using Suc by simp
    ultimately show ?thesis using Suc by (simp add: unfold)
  qed
qed

text \<open>
  C1, as the code has it. \<^verbatim>\<open>readTextEvents\<close> advances by six lines, not five: record
  \<open>k\<close> is made of lines \<open>6k\<close> to \<open>6k + 4\<close> (name, signal, fields key, format, field count;
  a line past the end of the file reads as \<^verbatim>\<open>undefined\<close>), and line \<open>6k + 5\<close>, the
  separator between two groups, goes into no record. There is one record for every
  started group of six lines.
\<close>

theorem readTextEvents_stride_six:
  "length (readTextEvents t) = (length (split_lines t) + 5) div 6 \<and>
   (\<forall>k < (length (split_lines t) + 5) div 6.
      6 * k < length (split_lines t) \<and>
      readTextEvents t ! k =
        \<lparr> name = split_lines t ! (6 * k),
          signal = nth_opt (split_lines t) (6 * k + 1),
          fields_key = nth_opt (split_lines t) (6 * k + 2),
          format = nth_opt (split_lines t) (6 * k + 3),
          field_count_maybe = nth_opt (split_lines t) (6 * k + 4) \<rparr>)"
proof -
  have "length (readTextEvents t) = (length (split_lines t) + 5) div 6"
    by (simp add: readTextEvents_def readTextEvents_from_length)
  moreover have "readTextEvents t ! k =
        \<lparr> name = split_lines t ! (6 * k),
          signal = nth_opt (split_lines t) (6 * k + 1),
          fields_key = nth_opt (split_lines t) (6 * k + 2),
          format = nth_opt (split_lines t) (6 * k + 3),
          field_count_maybe = nth_opt (split_lines t) (6 * k + 4) \<rparr>"
    if "k < (length (split_lines t) + 5) div 6" for k
    using readTextEvents_from_nth [of k "split_lines t" 0] that
    by (simp add: readTextEvents_def)
  ultimately show ?thesis using stride_index by blast
qed

text \<open>
  Two groups with a separator line between them: the second record is lines 6 to 10.
\<close>

theorem readTextEvents_stride_six_witness:
  "readTextEvents
     ''Join\<newline>XP_TE_JOIN\<newline>pevt_join_help\<newline>%N joined\<newline>4\<newline>\<newline>Part\<newline>XP_TE_PART\<newline>pevt_part_help\<newline>%N left\<newline>3\<newline>'' ! 1
   = \<lparr> name = ''Part'', signal = Some ''XP_TE_PART'', fields_key = Some ''pevt_part_help'',
       format = Some ''%N left'', field_count_maybe = Some ''3'' \<rparr>"
  using readTextEvents_stride_six
    [of "''Join\<newline>XP_TE_JOIN\<newline>pevt_join_help\<newline>%N joined\<newline>4\<newline>\<newline>Part\<newline>XP_TE_PART\<newline>pevt_part_help\<newline>%N left\<newline>3\<newline>''"]
  by (simp add: split_lines_def nth_opt_def)

text \<open>
  Two groups of five lines with nothing between them, the input C1 describes: the
  second record is not made of lines 5 to 9. It starts at line 6, and its name is the
  second group's signal.
\<close>

theorem readTextEvents_five_line_groups_counterexample:
  "readTextEvents
     ''Join\<newline>XP_TE_JOIN\<newline>pevt_join_help\<newline>%N joined\<newline>4\<newline>Part\<newline>XP_TE_PART\<newline>pevt_part_help\<newline>%N left\<newline>3''
   = [\<lparr> name = ''Join'', signal = Some ''XP_TE_JOIN'', fields_key = Some ''pevt_join_help'',
         format = Some ''%N joined'', field_count_maybe = Some ''4'' \<rparr>,
      \<lparr> name = ''XP_TE_PART'', signal = Some ''pevt_part_help'', fields_key = Some ''%N left'',
         format = Some ''3'', field_count_maybe = None \<rparr>]
   \<and> readTextEvents
     ''Join\<newline>XP_TE_JOIN\<newline>pevt_join_help\<newline>%N joined\<newline>4\<newline>Part\<newline>XP_TE_PART\<newline>pevt_part_help\<newline>%N left\<newline>3'' ! 1
   \<noteq> \<lparr> name = ''Part'', signal = Some ''XP_TE_PART'', fields_key = Some ''pevt_part_help'',
         format = Some ''%N left'', field_count_maybe = Some ''3'' \<rparr>"
  by code_simp

section \<open>Generators that stop at an exception\<close>

lemma yield_each_append_None:
  "yield_each f xs = (ls, None) \<Longrightarrow> f x = Inl e \<Longrightarrow> yield_each f (xs @ x # ys) = (ls, Some e)"
  by (induction xs arbitrary: ls) (auto split: sum.splits prod.splits)

lemma yield_each_append_Some:
  "yield_each f xs = (ls, Some e) \<Longrightarrow> yield_each f (xs @ ys) = (ls, Some e)"
  by (induction xs arbitrary: ls) (auto split: sum.splits prod.splits)

lemma yield_each_length: "yield_each f xs = (ls, r) \<Longrightarrow> length ls \<le> length xs"
  by (induction xs arbitrary: ls) (auto split: sum.splits prod.splits)

lemma for_of_stops:
  "yield_each f xs = (ls, None) \<Longrightarrow> f x = Inl e \<Longrightarrow> for_of (xs @ x # ys, r) f = (ls, Some e)"
  by (simp add: for_of_def yield_each_append_None)

lemma for_of_no_line:
  assumes "f x = Inl e"
  shows "\<exists>ls e'. for_of (xs @ x # ys, r) f = (ls, Some e') \<and> length ls \<le> length xs"
proof (cases "yield_each f xs")
  case (Pair ls r0)
  show ?thesis
  proof (cases r0)
    case None
    with Pair assms have "for_of (xs @ x # ys, r) f = (ls, Some e)" by (simp add: for_of_stops)
    with yield_each_length [OF Pair] show ?thesis by blast
  next
    case (Some e0)
    with Pair have "yield_each f (xs @ x # ys) = (ls, Some e0)" by (simp add: yield_each_append_Some)
    then have "for_of (xs @ x # ys, r) f = (ls, Some e0)" by (simp add: for_of_def)
    with yield_each_length [OF Pair] show ?thesis by blast
  qed
qed

section \<open>Properties of \<^verbatim>\<open>nameToCamelCase\<close>\<close>

lemma join_empty: "join [] ws = concat ws"
  by (induction "[] :: string" ws rule: join.induct) auto

text \<open>
  The case changes of the code, by arithmetic on the character code, are those of the
  alphabet, for every character.
\<close>

lemma upper_char_letter: "upper_char c = to_upper_letter c"
proof -
  have "\<forall>c \<in> set (Enum.enum :: char list). upper_char c = to_upper_letter c"
    by code_simp
  then show ?thesis by (simp add: enum_UNIV)
qed

lemma lower_char_letter: "lower_char c = to_lower_letter c"
proof -
  have "\<forall>c \<in> set (Enum.enum :: char list). lower_char c = to_lower_letter c"
    by code_simp
  then show ?thesis by (simp add: enum_UNIV)
qed

lemma title_word_eq: "w \<noteq> [] \<Longrightarrow> title_word w = Inr (title_case w)"
  by (cases w)
     (auto simp: title_case_def toUpperCase_def toLowerCase_def upper_char_letter
        lower_char_letter)

lemma map_result_title_Inr:
  "[] \<notin> set ws \<Longrightarrow> map_result title_word ws = Inr (map title_case ws)"
  by (induction ws) (auto simp: title_word_eq)

lemma map_result_title_Inl:
  "[] \<in> set ws \<Longrightarrow> map_result title_word ws = Inl TypeError"
proof (induction ws)
  case Nil
  then show ?case by simp
next
  case (Cons w ws)
  show ?case
  proof (cases "w = []")
    case True
    then show ?thesis by simp
  next
    case False
    with Cons have "map_result title_word ws = Inl TypeError" by simp
    with False show ?thesis by (simp add: title_word_eq)
  qed
qed

lemma camel_of_words_Inr: "[] \<notin> set ws \<Longrightarrow> camel_of_words ws = Inr (concat (map title_case ws))"
  by (simp add: camel_of_words_def map_result_title_Inr join_empty)

lemma camel_of_words_Inl: "[] \<in> set ws \<Longrightarrow> camel_of_words ws = Inl TypeError"
  by (simp add: camel_of_words_def map_result_title_Inl)

lemma split_by_not_Nil: "split_by p s \<noteq> []"
  by (induction s) (auto split: list.splits)

text \<open>
  The pieces of a split hold no separator, so \<^verbatim>\<open>toUpperCase\<close> and \<^verbatim>\<open>toLowerCase\<close> meet
  word characters only in an event name.
\<close>

lemma split_by_pieces: "w \<in> set (split_by p s) \<Longrightarrow> c \<in> set w \<Longrightarrow> \<not> p c"
proof (induction s arbitrary: w)
  case Nil
  then show ?case by simp
next
  case (Cons a s)
  show ?case
  proof (cases "p a")
    case True
    with Cons show ?thesis by auto
  next
    case False
    obtain v vs where sp: "split_by p s = v # vs"
      using split_by_not_Nil [of p s] by (cases "split_by p s") auto
    with False Cons.prems have "w = a # v \<or> w \<in> set vs" by simp
    then show ?thesis
    proof
      assume "w = a # v"
      with Cons.prems(2) have "c = a \<or> c \<in> set v" by simp
      with False Cons.IH [of v] sp show ?thesis by auto
    next
      assume "w \<in> set vs"
      with Cons.IH [of w] sp Cons.prems(2) show ?thesis by simp
    qed
  qed
qed


lemma split_by_runs:
  "split_by p s =
     takeWhile (\<lambda>c. \<not> p c) s #
     (case dropWhile (\<lambda>c. \<not> p c) s of [] \<Rightarrow> [] | c # r \<Rightarrow> split_by p r)"
  by (induction s) (auto split: list.splits)

lemma filter_split_word_tokens:
  "filter (\<lambda>w. w \<noteq> []) (split_by (\<lambda>c. \<not> is_word c) s) = word_tokens s"
proof (induction s rule: word_tokens.induct)
  case 1
  show ?case by simp
next
  case (2 c cs)
  show ?case
  proof (cases "is_word c")
    case False
    with 2 show ?thesis by simp
  next
    case True
    have "split_by (\<lambda>c. \<not> is_word c) (c # cs) =
        (c # takeWhile is_word cs) #
        (case dropWhile is_word cs of [] \<Rightarrow> [] | d # r \<Rightarrow> split_by (\<lambda>c. \<not> is_word c) r)"
      using True by (subst split_by_runs) simp
    moreover have "filter (\<lambda>w. w \<noteq> [])
        (case dropWhile is_word cs of [] \<Rightarrow> [] | d # r \<Rightarrow> split_by (\<lambda>c. \<not> is_word c) r)
        = word_tokens (dropWhile is_word cs)"
    proof (cases "dropWhile is_word cs")
      case Nil
      show ?thesis by (simp only: Nil list.case word_tokens.simps filter.simps)
    next
      case (Cons d r)
      then have "\<not> is_word d" by (metis hd_dropWhile list.distinct(1) list.sel(1))
      with "2.IH"(1) [OF True] Cons show ?thesis by simp
    qed
    ultimately show ?thesis using True by simp
  qed
qed

lemma split_word_tokens:
  "[] \<notin> set (split_by (\<lambda>c. \<not> is_word c) s) \<Longrightarrow> split_by (\<lambda>c. \<not> is_word c) s = word_tokens s"
proof -
  assume "[] \<notin> set (split_by (\<lambda>c. \<not> is_word c) s)"
  then have "filter (\<lambda>w. w \<noteq> []) (split_by (\<lambda>c. \<not> is_word c) s) = split_by (\<lambda>c. \<not> is_word c) s"
    by (intro filter_True) auto
  then show ?thesis by (simp only: filter_split_word_tokens)
qed

lemma nameToCamelCase_Inr:
  "[] \<notin> set (split_by (\<lambda>c. \<not> is_word c) n) \<Longrightarrow> nameToCamelCase n = Inr (spec_identifier n)"
proof -
  assume a: "[] \<notin> set (split_by (\<lambda>c. \<not> is_word c) n)"
  from camel_of_words_Inr [OF a] show ?thesis
    by (simp only: nameToCamelCase_def spec_identifier_def split_word_tokens [OF a])
qed

lemma nameToCamelCase_Inl:
  "[] \<in> set (split_by (\<lambda>c. \<not> is_word c) n) \<Longrightarrow> nameToCamelCase n = Inl TypeError"
  by (simp add: nameToCamelCase_def camel_of_words_Inl)

lemma startsWith_append: "startsWith p (p @ s)"
  by (induction p) auto

text \<open>
  C6. Whenever \<^verbatim>\<open>nameToCamelCase\<close> returns an identifier, it is the words of the
  name put together, each with its first character in upper case and the rest in lower
  case, the cases being those of the alphabet; it returns one whenever splitting the
  name on non-word characters gives no empty piece; the line of the event starts with
  that identifier; \<^verbatim>\<open>Channel Message\<close> gives \<^verbatim>\<open>ChannelMessage\<close>, and
  \<^verbatim>\<open>dcc CHAT aBORT\<close>, where every letter has the other case, gives
  \<^verbatim>\<open>DccChatAbort\<close>.
\<close>

theorem nameToCamelCase_title_case:
  "(\<forall>ident. nameToCamelCase n = Inr ident \<longrightarrow> ident = spec_identifier n) \<and>
   ([] \<notin> set (split_by (\<lambda>c. \<not> is_word c) n) \<longrightarrow> nameToCamelCase n = Inr (spec_identifier n)) \<and>
   (\<forall>fd ev line. name ev = n \<and> event_line fd ev = Inr line \<longrightarrow>
      startsWith (''print_event!('' @ spec_identifier n @ '', '') line) \<and>
   nameToCamelCase ''Channel Message'' = Inr ''ChannelMessage'' \<and>
   nameToCamelCase ''dcc CHAT aBORT'' = Inr ''DccChatAbort''"
proof -
  have a: "ident = spec_identifier m" if "nameToCamelCase m = Inr ident" for m ident
    using that nameToCamelCase_Inr [of m] nameToCamelCase_Inl [of m] by fastforce
  have b: "startsWith (''print_event!('' @ spec_identifier n @ '', '') line"
    if "name ev = n" and "event_line fd ev = Inr line" for fd and ev :: event and line
  proof -
    from that obtain ident fs where i: "nameToCamelCase n = Inr ident"
      and l: "line = (''print_event!('' @ ident @ '', '') @ ''\"'' @ name ev @ ''\", \"''
                    @ to_str (format ev) @ ''\", '' @ join '', '' (index_pairs fs) @ '');''"
      by (auto simp: event_line_def split: sum.splits option.splits)
    from a [OF i] l show ?thesis by (simp only: startsWith_append)
  qed
  have c: "nameToCamelCase ''Channel Message'' = Inr ''ChannelMessage''" by code_simp
  have d: "nameToCamelCase ''dcc CHAT aBORT'' = Inr ''DccChatAbort''" by code_simp
  from a b c d nameToCamelCase_Inr show ?thesis by blast
qed

text \<open>
  The name \<^verbatim>\<open>DCC CHAT Abort\<close> has three words and no empty piece; two of the words
  are in upper case throughout.
\<close>

theorem nameToCamelCase_title_case_witness:
  "[] \<notin> set (split_by (\<lambda>c. \<not> is_word c) ''DCC CHAT Abort'') \<and>
   nameToCamelCase ''DCC CHAT Abort'' = Inr ''DccChatAbort'' \<and> spec_identifier ''DCC CHAT Abort'' = ''DccChatAbort''"
proof -
  have h: "[] \<notin> set (split_by (\<lambda>c. \<not> is_word c) ''DCC CHAT Abort'')" by code_simp
  have s: "spec_identifier ''DCC CHAT Abort'' = ''DccChatAbort''" by code_simp
  from nameToCamelCase_title_case [of "''DCC CHAT Abort''"] h
  have "nameToCamelCase ''DCC CHAT Abort'' = Inr (spec_identifier ''DCC CHAT Abort'')" by blast
  with h s show ?thesis by (simp only: simp_thms)
qed

lemma split_by_hd: "hd (split_by p s) = takeWhile (\<lambda>c. \<not> p c) s"
  by (subst split_by_runs) simp

lemma split_by_hd_empty: "hd (split_by p s) = [] \<longleftrightarrow> s = [] \<or> p (hd s)"
  unfolding split_by_hd by (cases s) auto

lemma split_by_tl_empty:
  "[] \<in> set (tl (split_by p s)) \<longleftrightarrow>
     (s \<noteq> [] \<and> p (last s)) \<or> (\<exists>u a b v. s = u @ a # b # v \<and> p a \<and> p b)"
proof (induction s)
  case Nil
  show ?case by simp
next
  case (Cons c cs)
  have adj: "(\<exists>u a b v. c # cs = u @ a # b # v \<and> p a \<and> p b) \<longleftrightarrow>
      (p c \<and> cs \<noteq> [] \<and> p (hd cs)) \<or> (\<exists>u a b v. cs = u @ a # b # v \<and> p a \<and> p b)"
    (is "?L \<longleftrightarrow> ?R")
  proof
    assume ?L
    then obtain u a b v where e: "c # cs = u @ a # b # v" and ab: "p a" "p b" by blast
    show ?R
    proof (cases u)
      case Nil
      with e ab show ?thesis by auto
    next
      case (Cons d u')
      with e have "cs = u' @ a # b # v" by simp
      with ab show ?thesis by blast
    qed
  next
    assume ?R
    then show ?L
    proof
      assume "p c \<and> cs \<noteq> [] \<and> p (hd cs)"
      then have "c # cs = [] @ c # hd cs # tl cs \<and> p c \<and> p (hd cs)" by simp
      then show ?L by blast
    next
      assume "\<exists>u a b v. cs = u @ a # b # v \<and> p a \<and> p b"
      then obtain u a b v where "cs = u @ a # b # v" and ab: "p a" "p b" by blast
      then have "c # cs = (c # u) @ a # b # v" by simp
      with ab show ?L by blast
    qed
  qed
  show ?case
  proof (cases "p c")
    case True
    have "[] \<in> set (tl (split_by p (c # cs))) \<longleftrightarrow> [] \<in> set (split_by p cs)"
      using True by simp
    also have "\<dots> \<longleftrightarrow> hd (split_by p cs) = [] \<or> [] \<in> set (tl (split_by p cs))"
      by (cases "split_by p cs") (auto simp: split_by_not_Nil)
    also have "\<dots> \<longleftrightarrow> (cs = [] \<or> p (hd cs)) \<or>
        ((cs \<noteq> [] \<and> p (last cs)) \<or> (\<exists>u a b v. cs = u @ a # b # v \<and> p a \<and> p b))"
      by (simp only: split_by_hd_empty Cons.IH)
    also have "\<dots> \<longleftrightarrow> (c # cs \<noteq> [] \<and> p (last (c # cs))) \<or>
        (\<exists>u a b v. c # cs = u @ a # b # v \<and> p a \<and> p b)"
      using True by (auto simp only: adj last.simps list.distinct simp_thms split: if_splits)
    finally show ?thesis .
  next
    case False
    have "[] \<in> set (tl (split_by p (c # cs))) \<longleftrightarrow> [] \<in> set (tl (split_by p cs))"
      using False by (cases "split_by p cs") (auto simp: split_by_not_Nil)
    also have "\<dots> \<longleftrightarrow> (cs \<noteq> [] \<and> p (last cs)) \<or> (\<exists>u a b v. cs = u @ a # b # v \<and> p a \<and> p b)"
      by (rule Cons.IH)
    also have "\<dots> \<longleftrightarrow> (c # cs \<noteq> [] \<and> p (last (c # cs))) \<or>
        (\<exists>u a b v. c # cs = u @ a # b # v \<and> p a \<and> p b)"
      using False by (auto simp only: adj last.simps list.distinct simp_thms split: if_splits)
    finally show ?thesis .
  qed
qed

lemma split_by_empty_piece:
  "[] \<in> set (split_by p s) \<longleftrightarrow>
     s = [] \<or> p (hd s) \<or> p (last s) \<or> (\<exists>u a b v. s = u @ a # b # v \<and> p a \<and> p b)"
proof -
  have "[] \<in> set (split_by p s) \<longleftrightarrow> hd (split_by p s) = [] \<or> [] \<in> set (tl (split_by p s))"
    by (cases "split_by p s") (auto simp: split_by_not_Nil)
  then show ?thesis
    by (auto simp only: split_by_hd_empty split_by_tl_empty)
qed

lemma event_line_name_error:
  "nameToCamelCase (name ev) = Inl e \<Longrightarrow> event_line fd ev = Inl e"
  by (simp add: event_line_def)

text \<open>
  C10. Splitting the name on single non-word characters gives an empty piece exactly
  when the name is empty, starts or ends with a non-word character, or has two
  non-word characters next to each other. Then \<^verbatim>\<open>nameToCamelCase\<close> throws, the
  event's line is not made, and the generator ends there with the lines of the events
  before it.
\<close>

theorem nameToCamelCase_empty_token_throws:
  "([] \<in> set (split_by (\<lambda>c. \<not> is_word c) n) \<longleftrightarrow>
      n = [] \<or> \<not> is_word (hd n) \<or> \<not> is_word (last n) \<or>
      (\<exists>u a b v. n = u @ a # b # v \<and> \<not> is_word a \<and> \<not> is_word b)) \<and>
   ([] \<in> set (split_by (\<lambda>c. \<not> is_word c) n) \<longrightarrow>
      nameToCamelCase n = Inl TypeError \<and>
      (\<forall>fd ev. name ev = n \<longrightarrow>
         event_line fd ev = Inl TypeError \<and>
         (\<forall>evs ls rest. yield_each (event_line fd) evs = (ls, None) \<longrightarrow>
            for_of (evs @ ev # rest, None) (event_line fd) = (ls, Some TypeError))))"
proof -
  have "event_line fd ev = Inl TypeError \<and>
         (\<forall>evs ls rest. yield_each (event_line fd) evs = (ls, None) \<longrightarrow>
            for_of (evs @ ev # rest, None) (event_line fd) = (ls, Some TypeError))"
    if "[] \<in> set (split_by (\<lambda>c. \<not> is_word c) n)" and "name ev = n" for fd and ev :: event
  proof -
    from that have "event_line fd ev = Inl TypeError"
      by (simp add: event_line_name_error nameToCamelCase_Inl)
    then show ?thesis by (simp add: for_of_stops)
  qed
  with split_by_empty_piece [of "\<lambda>c. \<not> is_word c" n] nameToCamelCase_Inl [of n]
  show ?thesis by blast
qed

text \<open>Two spaces between the words: the line of the event before is all that is yielded.\<close>

theorem nameToCamelCase_empty_token_throws_witness:
  "[] \<in> set (split_by (\<lambda>c. \<not> is_word c) ''Channel  Message'') \<and>
   nameToCamelCase ''Channel  Message'' = Inl TypeError \<and>
   for_of ([\<lparr> name = ''Join'', signal = Some ''XP_TE_JOIN'', fields_key = Some ''pevt_generic_none_help'',
              format = Some ''%N joined'', field_count_maybe = Some ''0'' \<rparr>,
            \<lparr> name = ''Channel  Message'', signal = Some ''XP_TE_CHANMSG'',
              fields_key = Some ''pevt_generic_none_help'', format = Some ''%N'',
              field_count_maybe = Some ''0'' \<rparr>], None)
      (event_line (field_descriptions []))
   = ([''print_event!(Join, \"Join\", \"%N joined\", );''], Some TypeError)"
proof -
  have h: "[] \<in> set (split_by (\<lambda>c. \<not> is_word c) ''Channel  Message'')" by code_simp
  have y: "yield_each (event_line (field_descriptions []))
      [\<lparr> name = ''Join'', signal = Some ''XP_TE_JOIN'', fields_key = Some ''pevt_generic_none_help'',
              format = Some ''%N joined'', field_count_maybe = Some ''0'' \<rparr>]
     = ([''print_event!(Join, \"Join\", \"%N joined\", );''], None)"
    by code_simp
  from nameToCamelCase_empty_token_throws [of "''Channel  Message''"] h
  have t: "nameToCamelCase ''Channel  Message'' = Inl TypeError"
    and g: "\<And>fd (ev :: event) evs ls rest. name ev = ''Channel  Message'' \<Longrightarrow>
         yield_each (event_line fd) evs = (ls, None) \<Longrightarrow>
            for_of (evs @ ev # rest, None) (event_line fd) = (ls, Some TypeError)"
    by blast+
  from g [OF _ y, of "\<lparr> name = ''Channel  Message'', signal = Some ''XP_TE_CHANMSG'',
              fields_key = Some ''pevt_generic_none_help'', format = Some ''%N'',
              field_count_maybe = Some ''0'' \<rparr>" "[]"] h t
  show ?thesis by simp
qed

section \<open>Properties of the preference pipeline\<close>

lemma typeToRust_unsupported:
  "t \<notin> {''TYPE_STR'', ''TYPE_INT'', ''TYPE_BOOL''} \<Longrightarrow>
   typeToRust t = Inl (Error (''Unsupported type: '' @ t))"
  by (simp add: typeToRust_def)

lemma pref_line_unsupported:
  "pref_type p \<notin> {''TYPE_STR'', ''TYPE_INT'', ''TYPE_BOOL''} \<Longrightarrow> \<exists>e. pref_line p = Inl e"
  by (auto simp: pref_line_def typeToRust_unsupported split: sum.splits)

text \<open>
  C5. \<^verbatim>\<open>typeToRust\<close> takes \<^verbatim>\<open>TYPE_STR\<close> to \<^verbatim>\<open>String\<close>, \<^verbatim>\<open>TYPE_INT\<close> to \<^verbatim>\<open>i32\<close>
  and \<^verbatim>\<open>TYPE_BOOL\<close> to \<^verbatim>\<open>bool\<close>. For every other type it throws the error
  \<^verbatim>\<open>Unsupported type\<close>; a row with such a type never gives a line, and when its name
  converts the generator ends at that row with this error and the lines of the rows
  before it: the row is not skipped.
\<close>

theorem typeToRust_closed_mapping:
  "typeToRust ''TYPE_STR'' = Inr ''String'' \<and>
   typeToRust ''TYPE_INT'' = Inr ''i32'' \<and>
   typeToRust ''TYPE_BOOL'' = Inr ''bool'' \<and>
   (t \<notin> {''TYPE_STR'', ''TYPE_INT'', ''TYPE_BOOL''} \<longrightarrow>
      typeToRust t = Inl (Error (''Unsupported type: '' @ t)) \<and>
      (\<forall>p. pref_type p = t \<longrightarrow>
         (\<exists>e. pref_line p = Inl e) \<and>
         (\<forall>ident ps ls qs r.
            pref_nameToCamelCase (pref_name p) = Inr ident \<and> yield_each pref_line ps = (ls, None) \<longrightarrow>
            for_of (ps @ p # qs, r) pref_line = (ls, Some (Error (''Unsupported type: '' @ t))))))"
proof -
  have m: "typeToRust ''TYPE_STR'' = Inr ''String'' \<and> typeToRust ''TYPE_INT'' = Inr ''i32'' \<and>
     typeToRust ''TYPE_BOOL'' = Inr ''bool''"
    by (simp add: typeToRust_def)
  have u: "for_of (ps @ p # qs, r) pref_line = (ls, Some (Error (''Unsupported type: '' @ t)))"
    if "t \<notin> {''TYPE_STR'', ''TYPE_INT'', ''TYPE_BOOL''}" and "pref_type p = t"
      and "pref_nameToCamelCase (pref_name p) = Inr ident" and "yield_each pref_line ps = (ls, None)"
    for p :: pref and ident ps ls qs r
  proof -
    from that have "pref_line p = Inl (Error (''Unsupported type: '' @ t))"
      by (simp add: pref_line_def typeToRust_unsupported)
    with that(4) show ?thesis by (simp add: for_of_stops)
  qed
  from m u typeToRust_unsupported [of t] pref_line_unsupported show ?thesis by blast
qed

text \<open>A row of type \<^verbatim>\<open>TYPE_FLOAT\<close> between two good rows.\<close>

theorem typeToRust_closed_mapping_witness:
  "''TYPE_FLOAT'' \<notin> {''TYPE_STR'', ''TYPE_INT'', ''TYPE_BOOL''} \<and>
   typeToRust ''TYPE_FLOAT'' = Inl (Error ''Unsupported type: TYPE_FLOAT'') \<and>
   for_of ([\<lparr> pref_name = ''auto_reconnect'', pref_type = ''TYPE_BOOL'' \<rparr>,
            \<lparr> pref_name = ''gui_zoom'', pref_type = ''TYPE_FLOAT'' \<rparr>,
            \<lparr> pref_name = ''irc_nick1'', pref_type = ''TYPE_STR'' \<rparr>], None) pref_line
   = ([''pref!(AutoReconnect, \"auto_reconnect\", bool);''],
      Some (Error ''Unsupported type: TYPE_FLOAT''))"
proof -
  have h: "''TYPE_FLOAT'' \<notin> {''TYPE_STR'', ''TYPE_INT'', ''TYPE_BOOL''}" by simp
  have n: "pref_nameToCamelCase ''gui_zoom'' = Inr ''GuiZoom''" by code_simp
  have y: "yield_each pref_line [\<lparr> pref_name = ''auto_reconnect'', pref_type = ''TYPE_BOOL'' \<rparr>]
     = ([''pref!(AutoReconnect, \"auto_reconnect\", bool);''], None)"
    by code_simp
  from typeToRust_closed_mapping [of "''TYPE_FLOAT''"] h
  have t: "typeToRust ''TYPE_FLOAT'' = Inl (Error (''Unsupported type: '' @ ''TYPE_FLOAT''))"
    and g: "\<And>(p :: pref) ident ps ls qs r. pref_type p = ''TYPE_FLOAT'' \<Longrightarrow>
            pref_nameToCamelCase (pref_name p) = Inr ident \<Longrightarrow> yield_each pref_line ps = (ls, None) \<Longrightarrow>
            for_of (ps @ p # qs, r) pref_line = (ls, Some (Error (''Unsupported type: '' @ ''TYPE_FLOAT'')))"
    by blast+
  from g [of "\<lparr> pref_name = ''gui_zoom'', pref_type = ''TYPE_FLOAT'' \<rparr>", OF _ _ y,
          of "''GuiZoom''" "[\<lparr> pref_name = ''irc_nick1'', pref_type = ''TYPE_STR'' \<rparr>]" None] n h t
  show ?thesis by simp
qed

section \<open>Properties of the event emitter\<close>

lemma foldl_upd_other:
  "k \<notin> key ` set ds \<Longrightarrow> foldl (\<lambda>m d. m(key d \<mapsto> fields_list d)) m0 ds k = m0 k"
  by (induction ds arbitrary: m0) auto

lemma field_descriptions_unknown:
  "k \<notin> key ` set ds \<Longrightarrow> k \<noteq> ''pevt_generic_none_help'' \<Longrightarrow> field_descriptions ds k = None"
  by (simp add: field_descriptions_def foldl_upd_other)

lemma field_descriptions_reserved:
  "''pevt_generic_none_help'' \<notin> key ` set ds \<Longrightarrow>
   field_descriptions ds ''pevt_generic_none_help'' = Some []"
  by (simp add: field_descriptions_def foldl_upd_other)

lemma nameToCamelCase_error: "nameToCamelCase n = Inl e \<Longrightarrow> e = TypeError"
  using nameToCamelCase_Inr [of n] nameToCamelCase_Inl [of n] by fastforce

lemma event_line_unresolved:
  "fd (to_str (fields_key ev)) = None \<Longrightarrow> event_line fd ev = Inl TypeError"
  by (auto simp: event_line_def split: sum.splits dest: nameToCamelCase_error)

lemma index_pairs_Nil: "index_pairs [] = []"
  by (simp add: index_pairs_def)

text \<open>
  C4. A fields key that no descriptor has, and that is not the reserved key
  \<^verbatim>\<open>pevt_generic_none_help\<close>, is not in \<^verbatim>\<open>field_descriptions\<close>; the line of an event
  with such a key throws, and the generator ends there with the lines of the events
  before it. The reserved key, when no descriptor block redefines it, holds the empty
  field list, and the line of an event with that key has no index and label pair.
\<close>

theorem unresolved_fields_key_is_fatal:
  "(k \<notin> key ` set ds \<and> k \<noteq> ''pevt_generic_none_help'' \<longrightarrow>
      field_descriptions ds k = None \<and>
      (\<forall>ev. to_str (fields_key ev) = k \<longrightarrow>
         event_line (field_descriptions ds) ev = Inl TypeError \<and>
         (\<forall>evs ls rest. yield_each (event_line (field_descriptions ds)) evs = (ls, None) \<longrightarrow>
            for_of (evs @ ev # rest, None) (event_line (field_descriptions ds))
              = (ls, Some TypeError)))) \<and>
   (''pevt_generic_none_help'' \<notin> key ` set ds \<longrightarrow>
      field_descriptions ds ''pevt_generic_none_help'' = Some [] \<and>
      (\<forall>ev ident. fields_key ev = Some ''pevt_generic_none_help'' \<and>
           nameToCamelCase (name ev) = Inr ident \<longrightarrow>
         event_line (field_descriptions ds) ev =
           Inr (''print_event!('' @ ident @ '', \"'' @ name ev @ ''\", \"''
                @ to_str (format ev) @ ''\", );'')))"
proof -
  have a: "event_line (field_descriptions ds) ev = Inl TypeError \<and>
         (\<forall>evs ls rest. yield_each (event_line (field_descriptions ds)) evs = (ls, None) \<longrightarrow>
            for_of (evs @ ev # rest, None) (event_line (field_descriptions ds))
              = (ls, Some TypeError))"
    if "k \<notin> key ` set ds" "k \<noteq> ''pevt_generic_none_help''" "to_str (fields_key ev) = k"
    for ev :: event
  proof -
    from that have "event_line (field_descriptions ds) ev = Inl TypeError"
      by (simp add: event_line_unresolved field_descriptions_unknown)
    then show ?thesis by (simp add: for_of_stops)
  qed
  have b: "event_line (field_descriptions ds) ev =
           Inr (''print_event!('' @ ident @ '', \"'' @ name ev @ ''\", \"''
                @ to_str (format ev) @ ''\", );'')"
    if "''pevt_generic_none_help'' \<notin> key ` set ds"
      "fields_key ev = Some ''pevt_generic_none_help''" "nameToCamelCase (name ev) = Inr ident"
    for ev :: event and ident
    using that by (simp add: event_line_def field_descriptions_reserved index_pairs_Nil)
  from a b field_descriptions_unknown [of k ds] field_descriptions_reserved [of ds]
  show ?thesis by blast
qed

text \<open>
  One descriptor; the second event names a key that is missing, and an event with the
  reserved key gives a line without pairs.
\<close>

theorem unresolved_fields_key_is_fatal_witness:
  "''pevt_missing_help'' \<notin> key ` set [\<lparr> key = ''pevt_topic_help'', fields_list = [''Channel'', ''Topic''] \<rparr>] \<and>
   ''pevt_generic_none_help'' \<notin> key ` set [\<lparr> key = ''pevt_topic_help'', fields_list = [''Channel'', ''Topic''] \<rparr>] \<and>
   for_of
     ([\<lparr> name = ''Topic'', signal = Some ''XP_TE_TOPIC'', fields_key = Some ''pevt_topic_help'',
         format = Some ''%C22*%O'', field_count_maybe = Some ''2'' \<rparr>,
       \<lparr> name = ''Ping Reply'', signal = Some ''XP_TE_PINGREP'', fields_key = Some ''pevt_missing_help'',
         format = Some ''%C24*%O'', field_count_maybe = Some ''2'' \<rparr>,
       \<lparr> name = ''Quit'', signal = Some ''XP_TE_QUIT'', fields_key = Some ''pevt_topic_help'',
         format = Some ''%C23*%O'', field_count_maybe = Some ''2'' \<rparr>], None)
     (event_line (field_descriptions [\<lparr> key = ''pevt_topic_help'', fields_list = [''Channel'', ''Topic''] \<rparr>]))
   = ([''print_event!(Topic, \"Topic\", \"%C22*%O\", 0: \"Channel\", 1: \"Topic\");''], Some TypeError) \<and>
   event_line (field_descriptions [\<lparr> key = ''pevt_topic_help'', fields_list = [''Channel'', ''Topic''] \<rparr>])
     \<lparr> name = ''Add Notify'', signal = Some ''XP_TE_ADDNOTIFY'', fields_key = Some ''pevt_generic_none_help'',
       format = Some ''%O added'', field_count_maybe = Some ''0'' \<rparr>
   = Inr ''print_event!(AddNotify, \"Add Notify\", \"%O added\", );''"
proof -
  let ?ds = "[\<lparr> key = ''pevt_topic_help'', fields_list = [''Channel'', ''Topic''] \<rparr>]"
  let ?ev = "\<lparr> name = ''Ping Reply'', signal = Some ''XP_TE_PINGREP'', fields_key = Some ''pevt_missing_help'',
         format = Some ''%C24*%O'', field_count_maybe = Some ''2'' \<rparr>"
  let ?none = "\<lparr> name = ''Add Notify'', signal = Some ''XP_TE_ADDNOTIFY'', fields_key = Some ''pevt_generic_none_help'',
       format = Some ''%O added'', field_count_maybe = Some ''0'' \<rparr>"
  have h1: "''pevt_missing_help'' \<notin> key ` set ?ds" by simp
  have h2: "''pevt_missing_help'' \<noteq> ''pevt_generic_none_help''" by simp
  have h3: "''pevt_generic_none_help'' \<notin> key ` set ?ds" by simp
  have y: "yield_each (event_line (field_descriptions ?ds))
      [\<lparr> name = ''Topic'', signal = Some ''XP_TE_TOPIC'', fields_key = Some ''pevt_topic_help'',
         format = Some ''%C22*%O'', field_count_maybe = Some ''2'' \<rparr>]
      = ([''print_event!(Topic, \"Topic\", \"%C22*%O\", 0: \"Channel\", 1: \"Topic\");''], None)"
    by code_simp
  have n: "nameToCamelCase ''Add Notify'' = Inr ''AddNotify''" by code_simp
  from unresolved_fields_key_is_fatal [of "''pevt_missing_help''" ?ds] h1 h2 h3
  have g: "\<And>(ev :: event) evs ls rest. to_str (fields_key ev) = ''pevt_missing_help'' \<Longrightarrow>
         yield_each (event_line (field_descriptions ?ds)) evs = (ls, None) \<Longrightarrow>
         for_of (evs @ ev # rest, None) (event_line (field_descriptions ?ds)) = (ls, Some TypeError)"
    and r: "\<And>(ev :: event) ident. fields_key ev = Some ''pevt_generic_none_help'' \<Longrightarrow>
           nameToCamelCase (name ev) = Inr ident \<Longrightarrow>
         event_line (field_descriptions ?ds) ev =
           Inr (''print_event!('' @ ident @ '', \"'' @ name ev @ ''\", \"''
                @ to_str (format ev) @ ''\", );'')"
    by blast+
  from g [of ?ev, OF _ y] r [of ?none "''AddNotify''"] n h1 h3 show ?thesis by simp
qed

lemma read_fields_block:
  "\<forall>l \<in> set lits. \<not> startsWith ''}'' l \<Longrightarrow> map_result field_of lits = Inr labels \<Longrightarrow>
   startsWith ''}'' closing \<Longrightarrow> read_fields (lits @ closing # rest) = Inr (labels, rest)"
  by (induction lits arbitrary: labels) (auto split: sum.splits)

lemma map_result_length: "map_result f xs = Inr ys \<Longrightarrow> length ys = length xs"
  by (induction xs arbitrary: ys) (auto split: sum.splits)

lemma map_result_nth: "map_result f xs = Inr ys \<Longrightarrow> i < length xs \<Longrightarrow> f (xs ! i) = Inr (ys ! i)"
proof (induction xs arbitrary: ys i)
  case Nil
  then show ?case by simp
next
  case (Cons x xs)
  then show ?case by (cases i) (auto split: sum.splits)
qed

lemma length_index_pairs: "length (index_pairs fs) = length fs"
  by (simp add: index_pairs_def)

lemma index_pairs_nth:
  "i < length fs \<Longrightarrow> index_pairs fs ! i = decimal i @ '': \"'' @ fs ! i @ ''\"''"
  by (simp add: index_pairs_def nth_enumerate_eq)

text \<open>
  C7. A descriptor block is a declaration line, literal lines that do not start with
  \<^verbatim>\<open>}\<close>, and a closing line. Its descriptor holds the labels of the literal lines in
  the order of the lines, label \<open>i\<close> being that of line \<open>i\<close>; the blocks after it are
  read in the same way. The line of an event that resolves to these labels joins, in
  the same order, one pair per label, pair \<open>i\<close> being the decimal \<open>i\<close>, counted from 0,
  and label \<open>i\<close>.
\<close>

theorem descriptor_fields_in_declaration_order:
  assumes "exec re_const decl = Some m"
    and "\<forall>l \<in> set lits. \<not> startsWith ''}'' l"
    and "map_result field_of lits = Inr labels"
    and "startsWith ''}'' closing"
  shows "readDescriptions_lines (decl # lits @ closing # rest) =
           (case readDescriptions_lines (dropWhile (\<lambda>l. l = []) rest) of
              (ds, r) \<Rightarrow> (\<lparr> key = groups m ! 0, fields_list = labels \<rparr> # ds, r)) \<and>
         length labels = length lits \<and>
         (\<forall>i < length lits. field_of (lits ! i) = Inr (labels ! i)) \<and>
         length (index_pairs labels) = length labels \<and>
         (\<forall>i < length labels. index_pairs labels ! i = decimal i @ '': \"'' @ labels ! i @ ''\"'') \<and>
         (\<forall>fd ev ident. fd (to_str (fields_key ev)) = Some labels \<and>
              nameToCamelCase (name ev) = Inr ident \<longrightarrow>
            event_line fd ev =
              Inr (''print_event!('' @ ident @ '', \"'' @ name ev @ ''\", \"''
                   @ to_str (format ev) @ ''\", '' @ join '', '' (index_pairs labels) @ '');''))"
proof -
  from assms have "read_fields (lits @ closing # rest) = Inr (labels, rest)"
    by (simp add: read_fields_block)
  with assms(1) have "readDescriptions_lines (decl # lits @ closing # rest) =
           (case readDescriptions_lines (dropWhile (\<lambda>l. l = []) rest) of
              (ds, r) \<Rightarrow> (\<lparr> key = groups m ! 0, fields_list = labels \<rparr> # ds, r))"
    by simp
  moreover have "event_line fd ev =
              Inr (''print_event!('' @ ident @ '', \"'' @ name ev @ ''\", \"''
                   @ to_str (format ev) @ ''\", '' @ join '', '' (index_pairs labels) @ '');'')"
    if "fd (to_str (fields_key ev)) = Some labels" "nameToCamelCase (name ev) = Inr ident"
    for fd and ev :: event and ident
    using that by (simp add: event_line_def)
  ultimately show ?thesis
    using map_result_length [OF assms(3)] map_result_nth [OF assms(3)]
      length_index_pairs [of labels] index_pairs_nth [of _ labels]
    by blast
qed

text \<open>The block \<^verbatim>\<open>pevt_whoisid_help\<close>, two wrapped literals and a bare one.\<close>

theorem descriptor_fields_in_declaration_order_witness:
  "exec re_const ''static char * const pevt_whoisid_help[] = {'' \<noteq> None \<and>
   \<not> startsWith ''}'' (CHR 0x09 # ''N_(\"Nickname\"),'') \<and>
   \<not> startsWith ''}'' (CHR 0x09 # ''N_(\"Message\"),'') \<and>
   \<not> startsWith ''}'' (CHR 0x09 # ''\"Numeric\"'') \<and>
   startsWith ''}'' ''};'' \<and>
   readDescriptions_lines
     [''static char * const pevt_whoisid_help[] = {'',
      CHR 0x09 # ''N_(\"Nickname\"),'', CHR 0x09 # ''N_(\"Message\"),'', CHR 0x09 # ''\"Numeric\"'',
      ''};'', []]
   = ([\<lparr> key = ''pevt_whoisid_help'', fields_list = [''Nickname'', ''Message'', ''Numeric''] \<rparr>], None) \<and>
   index_pairs [''Nickname'', ''Message'', ''Numeric''] ! 0 = ''0: \"Nickname\"'' \<and>
   index_pairs [''Nickname'', ''Message'', ''Numeric''] ! 2 = ''2: \"Numeric\"''"
proof -
  let ?decl = "''static char * const pevt_whoisid_help[] = {''"
  let ?lits = "[CHR 0x09 # ''N_(\"Nickname\"),'', CHR 0x09 # ''N_(\"Message\"),'', CHR 0x09 # ''\"Numeric\"'']"
  let ?m = "\<lparr> before = ''static char * '', whole = ''const pevt_whoisid_help[]'',
             groups = [''pevt_whoisid_help''], after = '' = {'' \<rparr>"
  have h1: "exec re_const ?decl = Some ?m" by code_simp
  have h2: "\<forall>l \<in> set ?lits. \<not> startsWith ''}'' l" by simp
  have h3: "map_result field_of ?lits = Inr [''Nickname'', ''Message'', ''Numeric'']" by code_simp
  have h4: "startsWith ''}'' ''};''" by simp
  have r: "readDescriptions_lines (dropWhile (\<lambda>l. l = []) [[]]) = ([], None)" by simp
  have d: "decimal 0 = ''0''" "decimal 1 = ''1''" "decimal 2 = ''2''" by code_simp+
  from descriptor_fields_in_declaration_order [OF h1 h2 h3 h4, of "[[]]"] r
  have a: "readDescriptions_lines (?decl # ?lits @ ''};'' # [[]]) =
      ([\<lparr> key = ''pevt_whoisid_help'', fields_list = [''Nickname'', ''Message'', ''Numeric''] \<rparr>], None)"
    and b: "\<And>i. i < 3 \<Longrightarrow> index_pairs [''Nickname'', ''Message'', ''Numeric''] ! i
        = decimal i @ '': \"'' @ [''Nickname'', ''Message'', ''Numeric''] ! i @ ''\"''"
    by simp_all
  from b [of 0] b [of 2] d a h1 h2 h4 show ?thesis by simp
qed


lemma readPrefs_lines_append:
  "readPrefs_lines (pre @ post) =
     (case readPrefs_lines pre of
        (ps, Some e) \<Rightarrow> (ps, Some e)
      | (ps, None) \<Rightarrow> (case readPrefs_lines post of (qs, r) \<Rightarrow> (ps @ qs, r)))"
proof (induction pre)
  case Nil
  show ?case by (simp split: prod.splits)
next
  case (Cons l pre)
  then show ?case
    by (auto split: if_splits option.splits prod.splits)
qed

text \<open>
  C3, as the code has it. A line behind the two prefix lines that is not empty, starts
  with white space, does not contain the terminator \<^verbatim>\<open>{0, 0, 0}\<close> and does not match
  the row pattern is not skipped: \<^verbatim>\<open>exec\<close> returns \<^verbatim>\<open>null\<close>, destructuring it throws
  a \<^verbatim>\<open>TypeError\<close>, and the run ends with an error, this one unless a line or row
  before already threw. No \<^verbatim>\<open>PrefSpec\<close> and no output line comes from the line or
  from a line after it: what \<^verbatim>\<open>readPrefs\<close> and \<^verbatim>\<open>generateRustLines\<close> have yielded
  when they end comes from the lines before it alone.
\<close>

theorem unmatched_pref_row_throws:
  assumes "drop prefixLines (split_lines descriptions) = pre @ line # rest"
    and "line \<noteq> []"
    and "test_at_start re_indent line"
    and "\<not> includes_str ''{0, 0, 0}'' line"
    and "exec re_pref line = None"
  shows "fst (readPrefs descriptions) = fst (readPrefs_lines pre) \<and>
         snd (readPrefs descriptions) =
           Some (case snd (readPrefs_lines pre) of None \<Rightarrow> TypeError | Some e \<Rightarrow> e) \<and>
         fst (pref_generateRustLines descriptions) =
           fst (yield_each pref_line (fst (readPrefs_lines pre))) \<and>
         snd (pref_generateRustLines descriptions) =
           Some (case snd (yield_each pref_line (fst (readPrefs_lines pre))) of
                   Some e \<Rightarrow> e
                 | None \<Rightarrow> (case snd (readPrefs_lines pre) of None \<Rightarrow> TypeError | Some e \<Rightarrow> e))"
proof -
  obtain ps r where p: "readPrefs_lines pre = (ps, r)" by (cases "readPrefs_lines pre")
  obtain ls q where y: "yield_each pref_line ps = (ls, q)" by (cases "yield_each pref_line ps")
  from assms(2-5) have "readPrefs_lines (line # rest) = ([], Some TypeError)" by simp
  with p have "readPrefs_lines (pre @ line # rest) =
      (ps, Some (case r of None \<Rightarrow> TypeError | Some e \<Rightarrow> e))"
    by (simp only: readPrefs_lines_append) (simp split: option.splits)
  with assms(1) have a: "readPrefs descriptions =
      (ps, Some (case r of None \<Rightarrow> TypeError | Some e \<Rightarrow> e))"
    by (simp only: readPrefs_def)
  with y have "pref_generateRustLines descriptions =
      (ls, Some (case q of Some e \<Rightarrow> e
                 | None \<Rightarrow> (case r of None \<Rightarrow> TypeError | Some e \<Rightarrow> e)))"
    by (simp add: pref_generateRustLines_def for_of_def split: option.splits)
  with a p y show ?thesis by (cases q) simp_all
qed

text \<open>A file with a comment line between the first row and the second.\<close>

theorem unmatched_pref_row_throws_witness:
  "drop prefixLines
     (split_lines
        (''const struct prefs vars[] =\<newline>{\<newline>'' @
         CHR 0x09 # ''{\"gui_tray\", P_OFFINT (hex_gui_tray), TYPE_BOOL},\<newline>'' @
         CHR 0x09 # ''// network\<newline>'' @
         CHR 0x09 # ''{\"net_ping_timeout\", P_OFFINT (hex_net_ping_timeout), TYPE_INT},''))
   = [CHR 0x09 # ''{\"gui_tray\", P_OFFINT (hex_gui_tray), TYPE_BOOL},'']
     @ (CHR 0x09 # ''// network'')
     # [CHR 0x09 # ''{\"net_ping_timeout\", P_OFFINT (hex_net_ping_timeout), TYPE_INT},''] \<and>
   CHR 0x09 # ''// network'' \<noteq> [] \<and>
   test_at_start re_indent (CHR 0x09 # ''// network'') \<and>
   \<not> includes_str ''{0, 0, 0}'' (CHR 0x09 # ''// network'') \<and>
   exec re_pref (CHR 0x09 # ''// network'') = None \<and>
   readPrefs
     (''const struct prefs vars[] =\<newline>{\<newline>'' @
      CHR 0x09 # ''{\"gui_tray\", P_OFFINT (hex_gui_tray), TYPE_BOOL},\<newline>'' @
      CHR 0x09 # ''// network\<newline>'' @
      CHR 0x09 # ''{\"net_ping_timeout\", P_OFFINT (hex_net_ping_timeout), TYPE_INT},'')
   = ([\<lparr> pref_name = ''gui_tray'', pref_type = ''TYPE_BOOL'' \<rparr>], Some TypeError) \<and>
   pref_generateRustLines
     (''const struct prefs vars[] =\<newline>{\<newline>'' @
      CHR 0x09 # ''{\"gui_tray\", P_OFFINT (hex_gui_tray), TYPE_BOOL},\<newline>'' @
      CHR 0x09 # ''// network\<newline>'' @
      CHR 0x09 # ''{\"net_ping_timeout\", P_OFFINT (hex_net_ping_timeout), TYPE_INT},'')
   = ([''pref!(GuiTray, \"gui_tray\", bool);''], Some TypeError)"
proof -
  let ?file = "''const struct prefs vars[] =\<newline>{\<newline>'' @
      CHR 0x09 # ''{\"gui_tray\", P_OFFINT (hex_gui_tray), TYPE_BOOL},\<newline>'' @
      CHR 0x09 # ''// network\<newline>'' @
      CHR 0x09 # ''{\"net_ping_timeout\", P_OFFINT (hex_net_ping_timeout), TYPE_INT},''"
  let ?pre = "[CHR 0x09 # ''{\"gui_tray\", P_OFFINT (hex_gui_tray), TYPE_BOOL},'']"
  let ?line = "CHR 0x09 # ''// network''"
  let ?rest = "[CHR 0x09 # ''{\"net_ping_timeout\", P_OFFINT (hex_net_ping_timeout), TYPE_INT},'']"
  have h0: "drop prefixLines (split_lines ?file) = ?pre @ ?line # ?rest"
    by (simp add: prefixLines_def split_lines_def)
  have h1: "?line \<noteq> []" by simp
  have h2: "test_at_start re_indent ?line" by code_simp
  have h3: "\<not> includes_str ''{0, 0, 0}'' ?line" by code_simp
  have h4: "exec re_pref ?line = None" by code_simp
  have p: "readPrefs_lines ?pre = ([\<lparr> pref_name = ''gui_tray'', pref_type = ''TYPE_BOOL'' \<rparr>], None)"
    by code_simp
  have y: "yield_each pref_line [\<lparr> pref_name = ''gui_tray'', pref_type = ''TYPE_BOOL'' \<rparr>]
      = ([''pref!(GuiTray, \"gui_tray\", bool);''], None)"
    by code_simp
  from unmatched_pref_row_throws [OF h0 h1 h2 h3 h4] p y
  have "readPrefs ?file = ([\<lparr> pref_name = ''gui_tray'', pref_type = ''TYPE_BOOL'' \<rparr>], Some TypeError)"
    and "pref_generateRustLines ?file = ([''pref!(GuiTray, \"gui_tray\", bool);''], Some TypeError)"
    by (simp_all add: prod_eq_iff)
  with h0 h1 h2 h3 h4 show ?thesis by (simp only: simp_thms)
qed


text \<open>
  A file with a comment line between two rows: the line is not skipped without an
  error, the run ends with a \<^verbatim>\<open>TypeError\<close>.
\<close>

theorem unmatched_pref_row_counterexample:
  "pref_generateRustLines
     (''const struct prefs vars[] =\<newline>{\<newline>'' @
      CHR 0x09 # ''{\"auto_reconnect\", P_OFFINT (hex_net_auto_reconnect), TYPE_BOOL},\<newline>'' @
      CHR 0x09 # ''/* gui */\<newline>'' @
      CHR 0x09 # ''{\"gui_tray\", P_OFFINT (hex_gui_tray), TYPE_BOOL},\<newline>'' @
      CHR 0x09 # ''{0, 0, 0},\<newline>};\<newline>'')
   = ([''pref!(AutoReconnect, \"auto_reconnect\", bool);''], Some TypeError)"
  by code_simp

lemma rsearch_before:
  "rsearch re pre s = map_option (\<lambda>m. m\<lparr> before := pre @ before m \<rparr>) (rsearch re [] s)"
proof (induction s arbitrary: pre)
  case Nil
  show ?case by (simp split: option.splits)
next
  case (Cons c cs)
  show ?case
  proof (cases "rmatch re (c # cs) [] []")
    case (Some r)
    then show ?thesis by (simp split: prod.splits)
  next
    case None
    from Cons [of "pre @ [c]"] Cons [of "[c]"] None show ?thesis
      by (simp add: option.map_comp comp_def)
  qed
qed

lemma rsearch_skip:
  "\<forall>c \<in> set skip. \<forall>s. rmatch re (c # s) [] [] = None \<Longrightarrow> s \<noteq> [] \<Longrightarrow>
   rsearch re pre (skip @ s) = rsearch re (pre @ skip) s"
proof (induction skip arbitrary: pre)
  case Nil
  show ?case by simp
next
  case (Cons c skip)
  from Cons.prems have "rmatch re (c # skip @ s) [] [] = None" by simp
  with Cons.IH [of "pre @ [c]"] Cons.prems show ?case by simp
qed

lemma includes_str_skip:
  "\<forall>c \<in> set skip. c \<noteq> p0 \<Longrightarrow> includes_str (p0 # p) (skip @ s) = includes_str (p0 # p) s"
  by (induction skip) auto

lemma is_space_not_brace: "is_space c \<Longrightarrow> c \<noteq> CHR ''{''"
  by (auto simp: is_space_def code_def)

lemma test_at_start_indent: "is_space c \<Longrightarrow> test_at_start re_indent (c # s)"
  by (simp add: test_at_start_def re_indent_def counts_def)

lemma rmatch_re_pref_None: "c \<noteq> CHR ''{'' \<Longrightarrow> rmatch re_pref (c # s) [] [] = None"
  by (simp add: re_pref_def)

text \<open>
  C8. The line \<^verbatim>\<open>{"auto_reconnect", 0, TYPE_BOOL, 0}\<close>, indented by any white space,
  yields the \<^verbatim>\<open>PrefSpec\<close> with name \<^verbatim>\<open>auto_reconnect\<close> and type \<^verbatim>\<open>TYPE_BOOL\<close>, and
  the line emitted for it is \<^verbatim>\<open>pref!(AutoReconnect, "auto_reconnect", bool);\<close>.
\<close>

theorem auto_reconnect_row:
  assumes "ind \<noteq> []" and "\<forall>c \<in> set ind. is_space c"
  shows "readPrefs_lines ((ind @ ''{\"auto_reconnect\", 0, TYPE_BOOL, 0}'') # rest) =
           (case readPrefs_lines rest of
              (ps, r) \<Rightarrow> (\<lparr> pref_name = ''auto_reconnect'', pref_type = ''TYPE_BOOL'' \<rparr> # ps, r)) \<and>
         pref_line \<lparr> pref_name = ''auto_reconnect'', pref_type = ''TYPE_BOOL'' \<rparr> =
           Inr ''pref!(AutoReconnect, \"auto_reconnect\", bool);'' \<and>
         (\<exists>ls r. for_of (readPrefs_lines ((ind @ ''{\"auto_reconnect\", 0, TYPE_BOOL, 0}'') # rest)) pref_line
                  = (''pref!(AutoReconnect, \"auto_reconnect\", bool);'' # ls, r))"
proof -
  let ?row = "''{\"auto_reconnect\", 0, TYPE_BOOL, 0}''"
  let ?p = "\<lparr> pref_name = ''auto_reconnect'', pref_type = ''TYPE_BOOL'' \<rparr>"
  from assms obtain c ind' where ind: "ind = c # ind'" and c: "is_space c" by (cases ind) auto
  have ne: "ind @ ?row \<noteq> []" by simp
  have t: "test_at_start re_indent (ind @ ?row)"
    using c by (simp add: ind test_at_start_indent)
  from assms(2) have nb: "\<forall>c \<in> set ind. c \<noteq> CHR ''{''" by (auto dest: is_space_not_brace)
  have "\<not> includes_str ''{0, 0, 0}'' ?row" by code_simp
  with includes_str_skip [OF nb, of "''0, 0, 0}''" ?row]
  have s: "\<not> includes_str ''{0, 0, 0}'' (ind @ ?row)" by simp
  have r0: "rsearch re_pref [] ?row =
      Some \<lparr> before = [], whole = ''{\"auto_reconnect\", 0, TYPE_BOOL'',
             groups = [''auto_reconnect'', ''TYPE_BOOL''], after = '', 0}'' \<rparr>"
    by code_simp
  from nb have "rsearch re_pref [] (ind @ ?row) = rsearch re_pref ([] @ ind) ?row"
    by (intro rsearch_skip) (auto simp: rmatch_re_pref_None)
  also have "\<dots> = map_option (\<lambda>m. m\<lparr> before := ind @ before m \<rparr>) (rsearch re_pref [] ?row)"
    unfolding append_Nil by (rule rsearch_before)
  also have "\<dots> = Some \<lparr> before = ind, whole = ''{\"auto_reconnect\", 0, TYPE_BOOL'',
             groups = [''auto_reconnect'', ''TYPE_BOOL''], after = '', 0}'' \<rparr>"
    unfolding r0 by simp
  finally have e: "exec re_pref (ind @ ?row) =
      Some \<lparr> before = ind, whole = ''{\"auto_reconnect\", 0, TYPE_BOOL'',
             groups = [''auto_reconnect'', ''TYPE_BOOL''], after = '', 0}'' \<rparr>"
    unfolding exec_def .
  from ne t s e have a: "readPrefs_lines ((ind @ ?row) # rest) =
           (case readPrefs_lines rest of (ps, r) \<Rightarrow> (?p # ps, r))"
    by (simp del: append_is_Nil_conv)
  have b: "pref_line ?p = Inr ''pref!(AutoReconnect, \"auto_reconnect\", bool);''" by code_simp
  obtain ps r where rest: "readPrefs_lines rest = (ps, r)" by (cases "readPrefs_lines rest")
  with a have a': "readPrefs_lines ((ind @ ?row) # rest) = (?p # ps, r)" by (simp only: prod.case)
  have "\<exists>ls r'. for_of (?p # ps, r) pref_line
                  = (''pref!(AutoReconnect, \"auto_reconnect\", bool);'' # ls, r')"
    using b by (cases "yield_each pref_line ps") (auto simp: for_of_def split: option.splits)
  then have "\<exists>ls r. for_of (readPrefs_lines ((ind @ ?row) # rest)) pref_line
                  = (''pref!(AutoReconnect, \"auto_reconnect\", bool);'' # ls, r)"
    by (simp only: a')
  with a b show ?thesis by blast
qed

text \<open>A file of the two prefix lines and the row, indented by a tab.\<close>

theorem auto_reconnect_row_witness:
  "[CHR 0x09] \<noteq> [] \<and> is_space (CHR 0x09) \<and>
   readPrefs (''const struct prefs vars[] =\<newline>{\<newline>'' @ CHR 0x09 # ''{\"auto_reconnect\", 0, TYPE_BOOL, 0}'')
   = ([\<lparr> pref_name = ''auto_reconnect'', pref_type = ''TYPE_BOOL'' \<rparr>], None) \<and>
   pref_generateRustLines
     (''const struct prefs vars[] =\<newline>{\<newline>'' @ CHR 0x09 # ''{\"auto_reconnect\", 0, TYPE_BOOL, 0}'')
   = ([''pref!(AutoReconnect, \"auto_reconnect\", bool);''], None)"
proof -
  let ?file = "''const struct prefs vars[] =\<newline>{\<newline>'' @ CHR 0x09 # ''{\"auto_reconnect\", 0, TYPE_BOOL, 0}''"
  have h1: "[CHR 0x09] \<noteq> []" by simp
  have h2: "\<forall>c \<in> set [CHR 0x09]. is_space c" by (simp add: is_space_def code_def)
  have l: "drop prefixLines (split_lines ?file) = [[CHR 0x09] @ ''{\"auto_reconnect\", 0, TYPE_BOOL, 0}'']"
    by (simp add: prefixLines_def split_lines_def)
  from auto_reconnect_row [OF h1 h2, of "[]"]
  have r: "readPrefs_lines [[CHR 0x09] @ ''{\"auto_reconnect\", 0, TYPE_BOOL, 0}'']
        = ([\<lparr> pref_name = ''auto_reconnect'', pref_type = ''TYPE_BOOL'' \<rparr>], None)"
    and p: "pref_line \<lparr> pref_name = ''auto_reconnect'', pref_type = ''TYPE_BOOL'' \<rparr> =
           Inr ''pref!(AutoReconnect, \"auto_reconnect\", bool);''"
    by simp_all
  from r l have rp: "readPrefs ?file = ([\<lparr> pref_name = ''auto_reconnect'', pref_type = ''TYPE_BOOL'' \<rparr>], None)"
    by (simp only: readPrefs_def)
  from rp p have "pref_generateRustLines ?file = ([''pref!(AutoReconnect, \"auto_reconnect\", bool);''], None)"
    by (simp add: pref_generateRustLines_def for_of_def)
  with rp h1 h2 show ?thesis by simp
qed


section \<open>Properties of the handle rewriter\<close>

text \<open>
  C2, as the code has it. For the block
  \<^verbatim>\<open>unsafe fn get_info(handle: *mut hexchat_plugin, id: *const c_char) {\<close> the
  declaration is emitted unchanged, handle parameter included, followed by the
  forwarding call of \<^verbatim>\<open>(*self.handle.as_ptr()).get_info\<close> with \<^verbatim>\<open>self.handle.as_ptr()\<close>
  as first argument and \<^verbatim>\<open>id\<close> after it. The handle parameter is removed only where
  it is written \<^verbatim>\<open>ph: *mut hexchat_plugin,\<close>: the same block with \<^verbatim>\<open>ph\<close> for
  \<^verbatim>\<open>handle\<close> loses that parameter and gets the same call.
\<close>

theorem get_info_block_rewrite:
  "rewrite ''unsafe fn get_info(handle: *mut hexchat_plugin, id: *const c_char) {''
   = Some (''unsafe fn get_info(handle: *mut hexchat_plugin, id: *const c_char) {''
           @ ''// Safety: forwarded to caller\<newline>'' @ [CHR 0x09, CHR 0x09, CHR 0x09]
           @ ''unsafe { ((*self.handle.as_ptr()).get_info)(self.handle.as_ptr(), id) }\<newline>''
           @ [CHR 0x09, CHR 0x09]) \<and>
   rewrite ''unsafe fn get_info(ph: *mut hexchat_plugin, id: *const c_char) {''
   = Some (''unsafe fn get_info( id: *const c_char) {''
           @ ''// Safety: forwarded to caller\<newline>'' @ [CHR 0x09, CHR 0x09, CHR 0x09]
           @ ''unsafe { ((*self.handle.as_ptr()).get_info)(self.handle.as_ptr(), id) }\<newline>''
           @ [CHR 0x09, CHR 0x09])"
  by code_simp

text \<open>
  The output for the block with the parameter named \<^verbatim>\<open>handle\<close> still contains the
  handle parameter, and is not the declaration without it followed by the call.
\<close>

theorem get_info_handle_not_removed_counterexample:
  "map_option (includes_str ''handle: *mut hexchat_plugin'')
     (rewrite ''unsafe fn get_info(handle: *mut hexchat_plugin, id: *const c_char) {'')
   = Some True \<and>
   rewrite ''unsafe fn get_info(handle: *mut hexchat_plugin, id: *const c_char) {''
   \<noteq> Some (''unsafe fn get_info(id: *const c_char) {''
           @ ''// Safety: forwarded to caller\<newline>'' @ [CHR 0x09, CHR 0x09, CHR 0x09]
           @ ''unsafe { ((*self.handle.as_ptr()).get_info)(self.handle.as_ptr(), id) }\<newline>''
           @ [CHR 0x09, CHR 0x09])"
  by code_simp


lemma rmatch_argRegex_consumes:
  assumes "rmatch (argRegex d) s [] [] = Some (caps, rest)"
  shows "length rest < length s"
proof -
  from assms obtain k where
    m: "rmatch [GClose, Lit '':''] (drop k (drop (length d) s)) [drop (length d) s] [] = Some (caps, rest)"
    by (auto simp: argRegex_def split: if_splits dest!: first_some_SomeD)
  then have "drop k (drop (length d) s) \<noteq> []" and "rest = drop 1 (drop k (drop (length d) s))"
    by (auto split: if_splits)
  then show ?thesis by (cases "drop k (drop (length d) s)") (auto simp: drop_Suc)
qed

lemma rsearch_whole_nonempty:
  assumes "\<And>s caps rest. rmatch re s [] [] = Some (caps, rest) \<Longrightarrow> length rest < length s"
  shows "rsearch re pre s = Some m \<Longrightarrow> whole m \<noteq> []"
proof (induction s arbitrary: pre)
  case Nil
  then show ?case by (auto split: option.splits dest: assms)
next
  case (Cons c cs)
  show ?case
  proof (cases "rmatch re (c # cs) [] []")
    case None
    with Cons show ?thesis by simp
  next
    case (Some r)
    obtain caps rest where r: "r = (caps, rest)" by (cases r)
    from assms [of "c # cs" caps rest] Some r have "length rest < length (c # cs)" by simp
    with Some r Cons.prems show ?thesis by auto
  qed
qed

lemma allMatches_argRegex_total: "\<exists>ms. allMatches s (argRegex d) = Some ms"
proof (induction s "argRegex d" rule: allMatches.induct)
  case (1 str)
  show ?case
  proof (cases "exec (argRegex d) str")
    case None
    then show ?thesis by (subst allMatches.simps) simp
  next
    case (Some x)
    then have ne: "whole x \<noteq> []"
      unfolding exec_def by (rule rsearch_whole_nonempty [rotated]) (rule rmatch_argRegex_consumes)
    from "1.hyps" [OF Some ne] Some ne show ?thesis
      by (subst allMatches.simps) auto
  qed
qed

lemma param_names_total: "\<exists>names. param_names fullMatch = Some names"
  using allMatches_argRegex_total [of fullMatch "firstArgDepth fullMatch"]
  by (auto simp: param_names_def)











lemma rmatch_caps_prefix:
  "rmatch re s opens caps = Some (caps', rest) \<Longrightarrow> \<exists>new. caps' = caps @ new"
proof (induction re s opens caps rule: rmatch.induct)
  case (3 cl lo hi g re s opens caps)
  from "3.prems" obtain k where "rmatch re (drop k s) opens caps = Some (caps', rest)"
    by (auto dest: first_some_SomeD)
  from "3.IH" [OF this] show ?case .
qed (auto split: if_splits list.splits)

lemma rsearch_SomeD:
  "rsearch re pre s = Some m \<Longrightarrow> \<exists>t rest. rmatch re t [] [] = Some (groups m, rest)"
proof (induction re pre s rule: rsearch.induct)
  case (1 re pre)
  then obtain rest where "rmatch re [] [] [] = Some (groups m, rest)"
    by (auto split: option.splits)
  then show ?case by blast
next
  case (2 re pre c cs)
  show ?case
  proof (cases "rmatch re (c # cs) [] []")
    case None
    with 2 show ?thesis by simp
  next
    case (Some r)
    with "2.prems" obtain rest where "rmatch re (c # cs) [] [] = Some (groups m, rest)"
      by (cases r) auto
    then show ?thesis by blast
  qed
qed

lemma take_run_class:
  assumes "k \<le> length (takeWhile P s)"
  shows "\<forall>c \<in> set (take k s). P c"
proof -
  have "take k s = take k (takeWhile P s @ dropWhile P s)" by simp
  also have "\<dots> = take k (takeWhile P s)" using assms by (simp del: takeWhile_dropWhile_id)
  finally show ?thesis by (auto dest: in_set_takeD set_takeWhileD)
qed

text \<open>
  The indentation found is white space throughout, so \<^verbatim>\<open>new RegExp\<close> reads it as a
  literal, as \<open>argRegex\<close> has it.
\<close>

lemma firstArgDepth_space: "\<forall>c \<in> set (firstArgDepth s). is_space c"
proof (cases "exec re_depth s")
  case None
  then show ?thesis by (simp add: firstArgDepth_def)
next
  case (Some m)
  then obtain t rest where "rmatch re_depth t [] [] = Some (groups m, rest)"
    unfolding exec_def by (blast dest: rsearch_SomeD)
  then have "rmatch [Lit ''\<newline>'', Rep CSpace 1 None Lazy, GClose, Rep CWord 1 None Lazy, Lit '':'']
      t [t] [] = Some (groups m, rest)"
    by (simp only: re_depth_def rmatch.simps(4))
  then have sw: "startsWith ''\<newline>'' t"
    and a: "rmatch [Rep CSpace 1 None Lazy, GClose, Rep CWord 1 None Lazy, Lit '':'']
      (drop (length ''\<newline>'') t) [t] [] = Some (groups m, rest)"
    by (simp_all only: rmatch.simps(2) option.distinct split: if_splits)
  from sw obtain t' where t: "t = CHR 0x0A # t'" by (cases t) auto
  from a t have "first_some
      (\<lambda>k. rmatch [GClose, Rep CWord 1 None Lazy, Lit '':''] (drop k t') [t] [])
      (counts CSpace 1 None Lazy t') = Some (groups m, rest)"
    by (simp del: rmatch.simps add: rmatch.simps(3))
  then obtain k where k: "k \<in> set (counts CSpace 1 None Lazy t')"
    and "rmatch [GClose, Rep CWord 1 None Lazy, Lit '':''] (drop k t') [t] [] = Some (groups m, rest)"
    by (blast dest: first_some_SomeD)
  then have r: "rmatch [Rep CWord 1 None Lazy, Lit '':''] (drop k t') []
              [take (length t - length (drop k t')) t] = Some (groups m, rest)"
    by (simp del: rmatch.simps add: rmatch.simps(5))
  have ic: "in_class CSpace = is_space" by (rule ext) simp
  from k have kl: "k \<le> length (takeWhile is_space t')"
    by (auto simp: counts_def Let_def ic)
  then have "k \<le> length t'" using length_takeWhile_le [of is_space t'] by simp
  with t have "take (length t - length (drop k t')) t = CHR 0x0A # take k t'" by simp
  moreover from rmatch_caps_prefix [OF r]
  have "groups m ! 0 = take (length t - length (drop k t')) t" by auto
  moreover have "is_space (CHR 0x0A)" by (simp add: is_space_def code_def)
  ultimately show ?thesis
    using take_run_class [OF kl] Some by (simp add: firstArgDepth_def)
qed


text \<open>
  A match of a pattern has as many groups as the pattern closes, so the groups the
  scripts read (\<^verbatim>\<open>m[1]\<close>, and \<^verbatim>\<open>m[2]\<close> of a preference row) are there.
\<close>

lemma rmatch_caps_length:
  "rmatch re s opens caps = Some (caps', rest) \<Longrightarrow>
   length caps' = length caps + count_list re GClose"
proof (induction re s opens caps rule: rmatch.induct)
  case (3 cl lo hi g re s opens caps)
  from "3.prems" obtain k where "rmatch re (drop k s) opens caps = Some (caps', rest)"
    by (auto dest: first_some_SomeD)
  from "3.IH" [OF this] show ?case by simp
qed (auto split: if_splits list.splits)

lemma exec_groups_length: "exec re s = Some m \<Longrightarrow> length (groups m) = count_list re GClose"
  unfolding exec_def by (auto dest!: rsearch_SomeD rmatch_caps_length)

lemma groups_read_exist:
  "exec re_const s = Some m \<Longrightarrow> length (groups m) = 1"
  "exec re_wrapped s = Some m \<Longrightarrow> length (groups m) = 1"
  "exec re_bare s = Some m \<Longrightarrow> length (groups m) = 1"
  "exec re_pref s = Some m \<Longrightarrow> length (groups m) = 2"
  "exec re_fn s = Some m \<Longrightarrow> length (groups m) = 1"
  "exec re_depth s = Some m \<Longrightarrow> length (groups m) = 1"
  "exec (argRegex d) s = Some m \<Longrightarrow> length (groups m) = 1"
  by (auto dest!: exec_groups_length
      simp: re_const_def re_wrapped_def re_bare_def re_pref_def re_fn_def re_depth_def argRegex_def)


text \<open>
  Blocks with the handle parameter alone, on one line or with the parameter on a line
  of its own, for every function name.
\<close>

lemma first_some_map_option:
  "first_some (\<lambda>k. map_option g (f k)) ks = map_option g (first_some f ks)"
  by (induction ks) (auto split: option.splits)

lemma rmatch_without_groups:
  "GOpen \<notin> set re \<Longrightarrow> GClose \<notin> set re \<Longrightarrow>
   rmatch re s opens caps = map_option (\<lambda>(c, r). (caps, r)) (rmatch re s [] [])"
proof (induction re arbitrary: s)
  case Nil
  show ?case by simp
next
  case (Cons a re)
  then have ih: "\<And>s. rmatch re s opens caps = map_option (\<lambda>(c, r). (caps, r)) (rmatch re s [] [])"
    by simp
  show ?case
  proof (cases a)
    case (Rep cl lo hi g)
    then show ?thesis by (simp add: ih first_some_map_option)
  qed (use Cons.prems ih in auto)
qed




lemma is_word_not_comma: "is_word c \<Longrightarrow> c \<noteq> CHR '',''"
  by (auto simp: is_word_def is_upper_def is_lower_def is_digit_def code_def)





















lemma exec_Lit_not_included: "\<not> includes_str l s \<Longrightarrow> exec (Lit l # re) s = None"
proof -
  have "\<not> includes_str l s \<Longrightarrow> rsearch (Lit l # re) pre s = None" for pre
  proof (induction s arbitrary: pre)
    case Nil
    then show ?case by (cases l) auto
  next
    case (Cons c cs)
    then show ?case by simp
  qed
  then show "\<not> includes_str l s \<Longrightarrow> exec (Lit l # re) s = None" by (simp add: exec_def)
qed















end
